(* ===== verification/Tree_Prelude.thy ===== *)
theory Tree_Prelude
  imports Main "HOL-Library.Multiset"
begin

text \<open>
  Shared vocabulary of the development: the JavaScript built-ins that the
  TypeScript sources call (\<open>String.prototype.trim\<close> and \<open>toUpperCase\<close>,
  \<open>Math.max\<close>/\<open>Math.min\<close> clamping, \<open>Array.prototype.splice\<close> with a zero
  delete count, \<open>indexOf\<close> and \<open>join\<close>, truthiness of an optional string id), and the generic list lemmas about them that the component
  theories use.  Lemmas that the component proofs use by default are collected in
  \<open>js_simps\<close> and declared \<open>[simp]\<close>.
\<close>

named_theorems js_simps "simplification rules for the JavaScript built-ins"

section \<open>Identifiers and their truthiness\<close>

text \<open>
  Node ids are strings (\<open>TreeNodeId = string\<close> in \<open>types.ts\<close>).  A nullable id
  \<open>TreeNodeId | null\<close> is an \<open>option\<close>.  JavaScript tests such an id with
  \<open>if (!x)\<close>, which also rejects the empty string.
\<close>

type_synonym node_id = string

definition js_truthy_id :: "node_id option \<Rightarrow> bool" where
  "js_truthy_id x = (case x of None \<Rightarrow> False | Some s \<Rightarrow> s \<noteq> [])"

lemma js_truthy_id_simps [simp, js_simps]:
  "js_truthy_id None = False"
  "js_truthy_id (Some s) = (s \<noteq> [])"
  by (simp_all add: js_truthy_id_def)

section \<open>\<open>String.prototype.trim\<close>\<close>

text \<open>
  \<open>trim\<close> removes leading and trailing white space.  Strings are lists of 8-bit
  characters here, read as the first 256 UTF-16 code units (Latin-1), so the white
  space modelled is the part of ECMAScript's WhiteSpace and LineTerminator sets in that
  range: space, tab, line feed, vertical tab, form feed, carriage return and the
  no-break space \<open>U+00A0\<close>.
\<close>

definition js_space :: "char \<Rightarrow> bool" where
  "js_space c \<longleftrightarrow> c \<in> set [CHR '' '', CHR 0x09, CHR 0x0A, CHR 0x0B, CHR 0x0C, CHR 0x0D, CHR 0xA0]"

definition trim :: "string \<Rightarrow> string" where
  "trim s = rev (dropWhile js_space (rev (dropWhile js_space s)))"

lemma trim_Nil_iff [js_simps]: "trim s = [] \<longleftrightarrow> (\<forall>c \<in> set s. js_space c)"
proof -
  let ?d = "dropWhile js_space s"
  have "trim s = [] \<longleftrightarrow> (\<forall>c \<in> set ?d. js_space c)"
    by (simp add: trim_def)
  also have "\<dots> \<longleftrightarrow> dropWhile js_space ?d = []"
    by (simp only: dropWhile_eq_Nil_conv)
  also have "\<dots> \<longleftrightarrow> (\<forall>c \<in> set s. js_space c)"
    by simp
  finally show ?thesis .
qed

lemma trim_ends:
  assumes "trim s \<noteq> []"
  shows "\<not> js_space (hd (trim s)) \<and> \<not> js_space (last (trim s))"
proof -
  let ?d = "dropWhile js_space s"
  have d: "?d \<noteq> []" using assms trim_Nil_iff [of s] by simp
  then have hd_d: "\<not> js_space (hd ?d)" by (rule hd_dropWhile)
  have "\<exists>c \<in> set (rev ?d). \<not> js_space c" using d hd_d by (metis hd_in_set set_rev)
  then have r: "dropWhile js_space (rev ?d) \<noteq> []" by (simp add: dropWhile_eq_Nil_conv)
  have "\<not> js_space (hd (dropWhile js_space (rev ?d)))" using r by (rule hd_dropWhile)
  then have last_ok: "\<not> js_space (last (trim s))"
    using r by (simp add: trim_def last_rev)
  have "hd (trim s) = hd ?d"
  proof -
    obtain ys where ys: "rev ?d = ys @ dropWhile js_space (rev ?d)" and "\<forall>y \<in> set ys. js_space y"
      by (metis takeWhile_dropWhile_id set_takeWhileD)
    have "rev (dropWhile js_space (rev ?d)) \<noteq> []" using r by simp
    moreover have "?d = rev (dropWhile js_space (rev ?d)) @ rev ys"
      using ys by (metis rev_append rev_rev_ident)
    ultimately have "hd ?d = hd (rev (dropWhile js_space (rev ?d)))"
      by (metis hd_append2)
    then show ?thesis by (simp add: trim_def)
  qed
  with hd_d last_ok show ?thesis by simp
qed

section \<open>\<open>String.prototype.toUpperCase\<close>, \<open>Array.prototype.join\<close>, \<open>String(n)\<close>\<close>

text \<open>\<open>toUpperCase\<close> on one Latin-1 character: the ASCII and Latin-1 lower-case
  letters map to their capitals, and the sharp s \<open>U+00DF\<close> to the two letters
  \<open>SS\<close>.  The two Latin-1 letters whose capital lies outside Latin-1 (\<open>U+00B5\<close>
  and \<open>U+00FF\<close>, whose capitals are \<open>U+039C\<close> and \<open>U+0178\<close>) cannot be
  represented and are left unchanged.\<close>

definition js_upper_char :: "char \<Rightarrow> string" where
  "js_upper_char c =
     (let k = (of_char c :: nat) in
      if (97 \<le> k \<and> k \<le> 122) \<or> (224 \<le> k \<and> k \<le> 254 \<and> k \<noteq> 247) then [char_of (k - 32)]
      else if k = 223 then ''SS'' else [c])"

text \<open>\<open>s.toUpperCase()\<close>.\<close>

definition js_to_upper :: "string \<Rightarrow> string" where
  "js_to_upper s = concat (map js_upper_char s)"

text \<open>\<open>xs.join(sep)\<close>.\<close>

fun js_join :: "string \<Rightarrow> string list \<Rightarrow> string" where
  "js_join sep [] = []"
| "js_join sep [x] = x"
| "js_join sep (x # y # ys) = x @ sep @ js_join sep (y # ys)"

text \<open>\<open>String(n)\<close> for a natural number: its decimal digits.\<close>

function js_nat_string :: "nat \<Rightarrow> string" where
  "js_nat_string n =
     (if n < 10 then [char_of (48 + n)] else js_nat_string (n div 10) @ [char_of (48 + n mod 10)])"
  by pat_completeness auto
termination
  by (relation "measure id") auto

lemma js_nat_string_not_Nil [simp]: "js_nat_string n \<noteq> []"
  by (subst js_nat_string.simps) simp

section \<open>\<open>Array.prototype.indexOf\<close>\<close>

text \<open>The first position of \<open>x\<close>, or \<open>-1\<close>.\<close>

fun js_index_of :: "'a list \<Rightarrow> 'a \<Rightarrow> int" where
  "js_index_of [] x = -1"
| "js_index_of (y # ys) x = (if y = x then 0 else let k = js_index_of ys x in if k = -1 then -1 else k + 1)"

section \<open>Index clamping and insertion\<close>

text \<open>
  \<open>Math.max(0, Math.min(index, length))\<close> on an integer index, and
  \<open>xs.splice(k, 0, x)\<close> for a clamped \<open>k\<close>, which inserts \<open>x\<close> before position
  \<open>k\<close>.
\<close>

definition clamp_index :: "int \<Rightarrow> nat \<Rightarrow> nat" where
  "clamp_index k n = nat (max 0 (min k (int n)))"

definition splice_in :: "nat \<Rightarrow> 'a \<Rightarrow> 'a list \<Rightarrow> 'a list" where
  "splice_in k x xs = take k xs @ x # drop k xs"

lemma clamp_index_le [js_simps]: "clamp_index k n \<le> n"
  by (simp add: clamp_index_def)

lemma clamp_index_high [simp, js_simps]: "int n \<le> k \<Longrightarrow> clamp_index k n = n"
  by (simp add: clamp_index_def)

lemma clamp_index_low [simp, js_simps]: "k \<le> 0 \<Longrightarrow> clamp_index k n = 0"
  by (simp add: clamp_index_def)

lemma clamp_index_mid [js_simps]: "0 \<le> k \<Longrightarrow> k \<le> int n \<Longrightarrow> clamp_index k n = nat k"
  by (simp add: clamp_index_def)

lemma splice_in_end [simp, js_simps]: "length xs \<le> k \<Longrightarrow> splice_in k x xs = xs @ [x]"
  by (simp add: splice_in_def)

lemma splice_in_0 [simp, js_simps]: "splice_in 0 x xs = x # xs"
  by (simp add: splice_in_def)

lemma mset_splice_in [simp, js_simps]: "mset (splice_in k x xs) = add_mset x (mset xs)"
proof -
  have "mset xs = mset (take k xs) + mset (drop k xs)"
    by (metis append_take_drop_id mset_append)
  then show ?thesis by (simp add: splice_in_def)
qed

lemma set_splice_in [simp, js_simps]: "set (splice_in k x xs) = insert x (set xs)"
  by (metis mset_splice_in set_mset_add_mset_insert set_mset_mset)

lemma length_splice_in [simp, js_simps]: "length (splice_in k x xs) = Suc (length xs)"
  by (metis mset_splice_in size_add_mset size_mset)

lemma nth_splice_in [js_simps]: "k \<le> length xs \<Longrightarrow> splice_in k x xs ! k = x"
  by (simp add: splice_in_def nth_append)

section \<open>\<open>indexOf\<close> lemmas\<close>

lemma js_index_of_notin [simp, js_simps]: "x \<notin> set xs \<Longrightarrow> js_index_of xs x = -1"
  by (induction xs) auto

lemma js_index_of_in: "x \<in> set xs \<Longrightarrow> js_index_of xs x = int (length (takeWhile (\<lambda>y. y \<noteq> x) xs))"
  by (induction xs) (auto simp: Let_def)

lemma js_index_of_eq_neg1 [simp, js_simps]: "js_index_of xs x = -1 \<longleftrightarrow> x \<notin> set xs"
  by (cases "x \<in> set xs") (simp_all add: js_index_of_in)

lemma js_index_of_nth:
  assumes "x \<in> set xs"
  shows "nat (js_index_of xs x) < length xs \<and> xs ! nat (js_index_of xs x) = x"
proof -
  have l: "length (takeWhile (\<lambda>y. y \<noteq> x) xs) < length xs"
    using assms by (induction xs) auto
  then have "\<not> (xs ! length (takeWhile (\<lambda>y. y \<noteq> x) xs) \<noteq> x)" by (rule nth_length_takeWhile)
  with l show ?thesis using assms by (simp add: js_index_of_in)
qed

lemma js_index_of_distinct: "distinct xs \<Longrightarrow> k < length xs \<Longrightarrow> js_index_of xs (xs ! k) = int k"
proof (induction xs arbitrary: k)
  case (Cons y ys)
  then show ?case by (cases k) (auto simp: Let_def)
qed simp

section \<open>Multisets of lists\<close>

lemma distinct_if_count_le1:
  "(\<And>x. count (mset xs) x \<le> 1) \<Longrightarrow> distinct xs"
proof (induction xs)
  case Nil
  then show ?case by simp
next
  case (Cons a xs)
  have "count (mset xs) x \<le> 1" for x
  proof -
    have "count (mset xs) x \<le> count (mset (a # xs)) x" by simp
    then show ?thesis using Cons.prems [of x] by linarith
  qed
  moreover have "a \<notin> set xs"
  proof
    assume "a \<in> set xs"
    then have "0 < count (mset xs) a" by simp
    then show False using Cons.prems [of a] by simp
  qed
  ultimately show ?case using Cons.IH by simp
qed

lemma distinct_subset_mset: "mset xs \<subseteq># mset ys \<Longrightarrow> distinct ys \<Longrightarrow> distinct xs"
proof -
  assume sub: "mset xs \<subseteq># mset ys" and d: "distinct ys"
  have "count (mset xs) x \<le> 1" for x
  proof -
    have "count (mset xs) x \<le> count (mset ys) x" by (rule mset_subset_eq_count [OF sub])
    moreover have "count (mset ys) x \<le> 1" using d by (simp add: distinct_count_atmost_1)
    ultimately show ?thesis by linarith
  qed
  then show ?thesis by (rule distinct_if_count_le1)
qed

lemma distinct_all_eq_length: "distinct xs \<Longrightarrow> set xs \<subseteq> {a} \<Longrightarrow> length xs \<le> 1"
proof -
  assume d: "distinct xs" and s: "set xs \<subseteq> {a}"
  have "card (set xs) \<le> card {a}" using s by (intro card_mono) simp_all
  then show ?thesis using distinct_card [OF d] by simp
qed

lemma find_distinct_map:
  "distinct (map f xs) \<Longrightarrow> x \<in> set xs \<Longrightarrow> find (\<lambda>y. f y = f x) xs = Some x"
  by (induction xs) (auto simp: image_iff)

lemma find_append [js_simps]:
  "find P (xs @ ys) = (case find P xs of None \<Rightarrow> find P ys | Some x \<Rightarrow> Some x)"
  by (induction xs) auto

lemma find_Some_split:
  "find P xs = Some x \<longleftrightarrow> (\<exists>us vs. xs = us @ x # vs \<and> P x \<and> (\<forall>u \<in> set us. \<not> P u))"
proof (induction xs)
  case Nil
  then show ?case by simp
next
  case (Cons a xs)
  show ?case
  proof (cases "P a")
    case True
    then show ?thesis by (auto simp: Cons_eq_append_conv)
  next
    case False
    have "(\<exists>us vs. a # xs = us @ x # vs \<and> P x \<and> (\<forall>u \<in> set us. \<not> P u)) \<longleftrightarrow>
          (\<exists>us vs. xs = us @ x # vs \<and> P x \<and> (\<forall>u \<in> set us. \<not> P u))"
    proof
      assume "\<exists>us vs. a # xs = us @ x # vs \<and> P x \<and> (\<forall>u \<in> set us. \<not> P u)"
      then obtain us vs where eq: "a # xs = us @ x # vs" and px: "P x" and nu: "\<forall>u \<in> set us. \<not> P u"
        by blast
      with False obtain us' where "us = a # us'" by (cases us) auto
      with eq px nu show "\<exists>us vs. xs = us @ x # vs \<and> P x \<and> (\<forall>u \<in> set us. \<not> P u)" by auto
    next
      assume "\<exists>us vs. xs = us @ x # vs \<and> P x \<and> (\<forall>u \<in> set us. \<not> P u)"
      then obtain us vs where eq: "xs = us @ x # vs" and "P x" and "\<forall>u \<in> set us. \<not> P u"
        by blast
      moreover from eq have "a # xs = (a # us) @ x # vs" by simp
      ultimately show "\<exists>us vs. a # xs = us @ x # vs \<and> P x \<and> (\<forall>u \<in> set us. \<not> P u)"
        using False by (metis set_ConsD)
    qed
    with False Cons.IH show ?thesis by simp
  qed
qed

lemma mset_concat_map [js_simps]:
  "mset (concat (map f xs)) = (\<Sum>x \<in># mset xs. mset (f x))"
  by (induction xs) auto

end
