(* ===== verification/Tree_Types.thy ===== *)
theory Tree_Types
  imports Tree_Prelude
begin

text \<open>
  The data model of \<open>src/TreeViewComponent/src/components/TreeView/types.ts\<close>:
  a node with an id, a name, optional children (absent is different from empty) and
  an optional \<open>lazy\<close> flag, and the drop destination of a move.  Then the
  abstraction functions in which the properties of the tree operations are stated:
  the preorder list of all nodes of a forest, their ids, and the well-formedness
  predicates (unique non-empty ids; a lazy node has no children yet).
\<close>

section \<open>Nodes and drop destinations\<close>

text \<open>
  \<open>children?: TreeNode[]\<close> is \<open>node list option\<close> (\<open>None\<close> for
  \<open>undefined\<close>), \<open>lazy?: boolean\<close> is \<open>bool option\<close>.  A record cannot be
  recursive, so the node is a datatype with selectors.
\<close>

datatype node = Node (nid: node_id) (name: string) (children: "node list option")
  (lazy: "bool option")

datatype drop_position = Before | After | Inside

datatype drop_destination =
    DNode node_id drop_position  \<comment> \<open>\<open>{type: 'node', targetId, position}\<close>\<close>
  | DList "node_id option"       \<comment> \<open>\<open>{type: 'list', parentId}\<close>\<close>

text \<open>\<open>node.children ?? []\<close>, used throughout the sources.\<close>

definition children_list :: "node \<Rightarrow> node list" where
  "children_list n = (case children n of None \<Rightarrow> [] | Some cs \<Rightarrow> cs)"

lemma children_list_Node [simp]:
  "children_list (Node j nm None lz) = []"
  "children_list (Node j nm (Some cs) lz) = cs"
  by (simp_all add: children_list_def)

text \<open>The three shapes of \<open>children\<close> the sources distinguish: \<open>undefined\<close>, empty
  (\<open>!node.children?.length\<close> holds for both) and non-empty.\<close>

lemma children_cases [case_names Absent Empty NonEmpty]:
  obtains "ch = None" | "ch = Some []" | c cs where "ch = Some (c # cs)"
  by (metis list.exhaust option.exhaust)

section \<open>Abstraction: the nodes and ids of a forest\<close>

text \<open>All nodes of a forest in depth-first preorder, the order of \<open>findNode\<close>.\<close>

fun forest_nodes :: "node list \<Rightarrow> node list" where
  "forest_nodes [] = []"
| "forest_nodes (Node j nm None lz # ns) = Node j nm None lz # forest_nodes ns"
| "forest_nodes (Node j nm (Some cs) lz # ns) =
     Node j nm (Some cs) lz # forest_nodes cs @ forest_nodes ns"

definition forest_ids :: "node list \<Rightarrow> node_id list" where
  "forest_ids ns = map nid (forest_nodes ns)"

abbreviation node_ids :: "node \<Rightarrow> node_id list" where
  "node_ids n \<equiv> forest_ids [n]"

definition forest_size :: "node list \<Rightarrow> nat" where
  "forest_size ns = length (forest_nodes ns)"

text \<open>Well-formedness of a forest: ids are unique and non-empty
  (\<open>createId\<close> never yields the empty string), and a node marked lazy has no
  children yet.\<close>

definition ids_ok :: "node list \<Rightarrow> bool" where
  "ids_ok ns \<longleftrightarrow> distinct (forest_ids ns) \<and> [] \<notin> set (forest_ids ns)"

definition lazy_ok :: "node list \<Rightarrow> bool" where
  "lazy_ok ns \<longleftrightarrow> list_all (\<lambda>n. lazy n = Some True \<longrightarrow> children n = None) (forest_nodes ns)"

subsection \<open>Characteristic equations\<close>

named_theorems forest_simps "equations of the forest abstraction"

lemma forest_nodes_Cons [simp, forest_simps]:
  "forest_nodes (n # ns) = n # forest_nodes (children_list n) @ forest_nodes ns"
proof (cases n)
  case (Node j nm ch lz)
  then show ?thesis by (cases ch) simp_all
qed

declare forest_nodes.simps(2,3) [simp del]

lemma forest_nodes_append [simp, forest_simps]:
  "forest_nodes (xs @ ys) = forest_nodes xs @ forest_nodes ys"
  by (induction xs) auto

lemma forest_ids_simps [simp, forest_simps]:
  "forest_ids [] = []"
  "forest_ids (n # ns) = nid n # forest_ids (children_list n) @ forest_ids ns"
  "forest_ids (xs @ ys) = forest_ids xs @ forest_ids ys"
  by (simp_all add: forest_ids_def)

lemma forest_nodes_mem_ids [forest_simps]:
  "m \<in> set (forest_nodes ns) \<Longrightarrow> nid m \<in> set (forest_ids ns)"
  by (simp add: forest_ids_def)

lemma forest_nodes_children_subset:
  "m \<in> set (forest_nodes ns) \<Longrightarrow> set (forest_nodes (children_list m)) \<subseteq> set (forest_nodes ns)"
proof (induction ns rule: forest_nodes.induct)
  case 1
  then show ?case by simp
next
  case (2 j nm lz ns)
  then show ?case by auto
next
  case (3 j nm cs lz ns)
  from "3.prems" consider "m = Node j nm (Some cs) lz" | "m \<in> set (forest_nodes cs)"
    | "m \<in> set (forest_nodes ns)"
    by auto
  then show ?case
  proof cases
    case 1
    then show ?thesis by auto
  next
    case 2
    then show ?thesis using "3.IH"(1) by auto
  next
    case 3
    then show ?thesis using "3.IH"(2) by auto
  qed
qed

lemma ids_ok_Cons [forest_simps]:
  "ids_ok (n # ns) \<longleftrightarrow>
     nid n \<noteq> [] \<and> nid n \<notin> set (forest_ids (children_list n)) \<and> nid n \<notin> set (forest_ids ns) \<and>
     set (forest_ids (children_list n)) \<inter> set (forest_ids ns) = {} \<and>
     ids_ok (children_list n) \<and> ids_ok ns"
  unfolding ids_ok_def
  by (simp only: forest_ids_simps distinct.simps distinct_append set_append list.set insert_iff
      Un_iff de_Morgan_disj eq_commute [of "[]" "nid n"]) blast

lemma ids_ok_ConsD:
  assumes "ids_ok (n # ns)"
  shows "nid n \<notin> set (forest_ids ns)" and "ids_ok (children_list n)" and "ids_ok ns"
    and "set (forest_ids (children_list n)) \<inter> set (forest_ids ns) = {}"
  using ids_ok_Cons [THEN iffD1, OF assms] by blast+

lemma ids_ok_Nil [simp, forest_simps]: "ids_ok []"
  by (simp add: ids_ok_def)

lemma ids_ok_append [forest_simps]:
  "ids_ok (xs @ ys) \<longleftrightarrow> ids_ok xs \<and> ids_ok ys \<and> set (forest_ids xs) \<inter> set (forest_ids ys) = {}"
  unfolding ids_ok_def
  by (simp only: forest_ids_simps distinct_append set_append Un_iff de_Morgan_disj) blast

lemma ids_ok_subset_mset:
  assumes sub: "mset (forest_ids xs) \<subseteq># mset (forest_ids ys)" and ok: "ids_ok ys"
  shows "ids_ok xs"
proof -
  from ok have d: "distinct (forest_ids ys)" and e: "[] \<notin> set (forest_ids ys)"
    by (simp_all add: ids_ok_def)
  have "distinct (forest_ids xs)" using sub d by (rule distinct_subset_mset)
  moreover have "set (forest_ids xs) \<subseteq> set (forest_ids ys)"
    using set_mset_mono [OF sub] by simp
  ultimately show ?thesis using e by (auto simp: ids_ok_def)
qed

lemma ids_ok_mset:
  "mset (forest_ids xs) = mset (forest_ids ys) \<Longrightarrow> ids_ok ys \<Longrightarrow> ids_ok xs"
  using ids_ok_subset_mset [of xs ys] by simp

lemma lazy_ok_simps [simp, forest_simps]:
  "lazy_ok []"
  "lazy_ok (n # ns) \<longleftrightarrow> (lazy n = Some True \<longrightarrow> children n = None) \<and>
      lazy_ok (children_list n) \<and> lazy_ok ns"
  "lazy_ok (xs @ ys) \<longleftrightarrow> lazy_ok xs \<and> lazy_ok ys"
  by (auto simp: lazy_ok_def)

lemma lazy_ok_node:
  "lazy_ok ns \<Longrightarrow> n \<in> set (forest_nodes ns) \<Longrightarrow> lazy_ok [n]"
  unfolding lazy_ok_def list_all_iff
  using forest_nodes_children_subset [of n ns] by auto

lemma forest_ids_children_subset:
  "m \<in> set (forest_nodes ns) \<Longrightarrow> set (forest_ids (children_list m)) \<subseteq> set (forest_ids ns)"
  using forest_nodes_children_subset [of m ns] by (auto simp: forest_ids_def)

lemma ids_ok_node: "ids_ok ns \<Longrightarrow> m \<in> set (forest_nodes ns) \<Longrightarrow> ids_ok [m]"
proof (induction ns rule: forest_nodes.induct)
  case (2 j nm lz ns)
  then show ?case by (auto simp: ids_ok_Cons)
next
  case (3 j nm cs lz ns)
  from "3.prems"(2) consider "m = Node j nm (Some cs) lz" | "m \<in> set (forest_nodes cs)" | "m \<in> set (forest_nodes ns)"
    by auto
  then show ?case
  proof cases
    case 1
    then show ?thesis using "3.prems"(1) by (auto simp: ids_ok_Cons)
  next
    case 2
    then show ?thesis using "3.IH"(1) "3.prems"(1) by (auto simp: ids_ok_Cons)
  next
    case 3
    then show ?thesis using "3.IH"(2) "3.prems"(1) by (auto simp: ids_ok_Cons)
  qed
qed simp

end
