(* ===== verification/Tree_Utils.thy ===== *)
theory Tree_Utils
  imports Tree_Types
begin

text \<open>
  The pure forest operations of
  \<open>src/TreeViewComponent/src/components/TreeView/treeUtils.ts\<close>, one definition per
  exported function and in the file's order: \<open>findNode\<close>, \<open>containsNode\<close>,
  \<open>updateNode\<close>, \<open>removeNode\<close> (its \<open>for\<close> loop as \<open>remove_loop\<close>, with the
  \<open>next\<close>/\<open>removed\<close>/\<open>changed\<close> accumulators), \<open>findParentInfo\<close> (its indexed loop
  as \<open>find_parent_loop\<close>), \<open>getChildren\<close>, \<open>insertNodeAt\<close> and \<open>moveNode\<close>.
  \<open>createId\<close> is a function of its nondeterministic inputs; the controller
  receives its results as event arguments.  \<open>updateNode\<close> is given a second time
  with the JavaScript call stack explicit (\<open>update_node_st\<close>), to state when it
  returns.

  JavaScript returns the input array itself when nothing changed
  (\<open>changed ? next : nodes\<close>); in HOL values have no identity, so that structural
  sharing shows as the equation \<open>f ns = ns\<close> (\<open>update_node_noop\<close>,
  \<open>remove_node_noop\<close>).

  The lemmas, group by group: lookup is first match in preorder; \<open>updateNode\<close>
  conserves the ids outside the edited node; \<open>removeNode\<close>'s loop equals a reference
  definition (\<open>prune_forest\<close>, \<open>last_match\<close>) and removes exactly the subtree
  \<open>findNode\<close> returns; \<open>findParentInfo\<close> is correct and complete;
  \<open>insertNodeAt\<close> clamps and conserves ids; \<open>moveNode\<close> refuses cycles, conserves
  the node multiset for valid destinations, keeps ids unique and moves the subtree
  unchanged, and loses it for a list destination whose parent is missing.
\<close>

section \<open>Definitions\<close>

text \<open>\<open>createId()\<close> (lines 3--9): \<open>crypto.randomUUID()\<close> when the browser has it,
  otherwise \<open>node_\<close>, \<open>Date.now()\<close>, \<open>_\<close> and the hexadecimal digits of
  \<open>Math.random()\<close> after its leading \<open>0.\<close>.  Whether \<open>randomUUID\<close> exists,
  the UUID, the clock and the random number's hexadecimal text are inputs.\<close>

definition create_id_tree :: "bool \<Rightarrow> string \<Rightarrow> nat \<Rightarrow> string \<Rightarrow> string" where
  "create_id_tree has_uuid uuid now rnd =
     (if has_uuid then uuid else ''node_'' @ js_nat_string now @ ''_'' @ drop 2 rnd)"

text \<open>\<open>findNode\<close> (lines 11--20): depth-first, first match; recursion only into a
  non-empty \<open>children\<close> array (\<open>node.children?.length\<close>).\<close>

fun find_node :: "node list \<Rightarrow> node_id \<Rightarrow> node option" where
  "find_node [] i = None"
| "find_node (Node j nm ch lz # ns) i =
     (if j = i then Some (Node j nm ch lz)
      else case ch of
        Some (c # cs) \<Rightarrow> (case find_node (c # cs) i of Some f \<Rightarrow> Some f | None \<Rightarrow> find_node ns i)
      | _ \<Rightarrow> find_node ns i)"

text \<open>\<open>containsNode\<close> (lines 22--28).\<close>

fun contains_node :: "node \<Rightarrow> node_id \<Rightarrow> bool" where
  "contains_node (Node j nm None lz) i = (j = i)"
| "contains_node (Node j nm (Some cs) lz) i = (j = i \<or> list_ex (\<lambda>c. contains_node c i) cs)"

text \<open>\<open>updateNode\<close> (lines 30--48): \<open>nodes.map\<close>; a matching node is replaced by
  \<open>updater(n)\<close> and not searched further, a node without children is kept, any other
  node gets its updated children.\<close>

fun update_node :: "node list \<Rightarrow> node_id \<Rightarrow> (node \<Rightarrow> node) \<Rightarrow> node list" where
  "update_node [] i f = []"
| "update_node (Node j nm ch lz # ns) i f =
     (if j = i then f (Node j nm ch lz)
      else case ch of
        Some (c # cs) \<Rightarrow> Node j nm (Some (update_node (c # cs) i f)) lz
      | _ \<Rightarrow> Node j nm ch lz) # update_node ns i f"

text \<open>The depth of a forest: the number of nested \<open>updateNode\<close> calls a full traversal
  makes (a node with an empty or unset child list is not descended into, but counts as
  one level).\<close>

fun forest_depth :: "node list \<Rightarrow> nat" where
  "forest_depth [] = 0"
| "forest_depth (Node j nm None lz # ns) = max 1 (forest_depth ns)"
| "forest_depth (Node j nm (Some cs) lz # ns) = max (Suc (forest_depth cs)) (forest_depth ns)"

text \<open>\<open>updateNode\<close> with the JavaScript call stack made explicit: \<open>d\<close> is the number of
  nested calls still possible, \<open>update_one_st\<close> is the callback of \<open>nodes.map\<close>,
  and \<open>None\<close> is the \<open>RangeError\<close> thrown when the stack is exhausted.\<close>

fun update_node_st :: "nat \<Rightarrow> node list \<Rightarrow> node_id \<Rightarrow> (node \<Rightarrow> node) \<Rightarrow> node list option"
  and update_one_st :: "nat \<Rightarrow> node \<Rightarrow> node_id \<Rightarrow> (node \<Rightarrow> node) \<Rightarrow> node option" where
  "update_node_st d [] i f = Some []"
| "update_node_st d (n # ns) i f =
     (case update_one_st d n i f of
        None \<Rightarrow> None
      | Some n' \<Rightarrow> map_option (Cons n') (update_node_st d ns i f))"
| "update_one_st d (Node j nm ch lz) i f =
     (if j = i then Some (f (Node j nm ch lz))
      else case ch of
        Some (c # cs) \<Rightarrow>
          (case d of
             0 \<Rightarrow> None
           | Suc d' \<Rightarrow> map_option (\<lambda>t. Node j nm (Some t) lz) (update_node_st d' (c # cs) i f))
      | _ \<Rightarrow> Some (Node j nm ch lz))"

text \<open>\<open>removeNode\<close> (lines 50--81).  The loop pushes every kept node onto \<open>next\<close>,
  drops every match (the loop goes on after a match, so every sibling with the id is
  removed and \<open>removed\<close> ends as the last one found), and rebuilds a node only when
  the recursive call removed something below it.\<close>

function remove_node :: "node list \<Rightarrow> node_id \<Rightarrow> node list \<times> node option"
  and remove_loop :: "node list \<Rightarrow> node list \<Rightarrow> node_id \<Rightarrow> node list \<Rightarrow> node option \<Rightarrow> bool \<Rightarrow>
       node list \<times> node option" where
  "remove_node nodes i = remove_loop nodes nodes i [] None False"
| "remove_loop nodes [] i next removed changed = ((if changed then next else nodes), removed)"
| "remove_loop nodes (Node j nm ch lz # ns) i next removed changed =
     (if j = i then remove_loop nodes ns i next (Some (Node j nm ch lz)) True
      else case ch of
        Some (c # cs) \<Rightarrow>
          (case remove_node (c # cs) i of
             (t, Some r) \<Rightarrow> remove_loop nodes ns i (next @ [Node j nm (Some t) lz]) (Some r) True
           | (t, None) \<Rightarrow> remove_loop nodes ns i (next @ [Node j nm ch lz]) removed changed)
      | _ \<Rightarrow> remove_loop nodes ns i (next @ [Node j nm ch lz]) removed changed)"
  by pat_completeness auto
termination
  by (relation "measure (case_sum (\<lambda>(ns, i). 2 * size_list size ns + 1)
                                  (\<lambda>(nodes, rest, i, nx, r, c). 2 * size_list size rest))") auto

text \<open>\<open>findParentInfo\<close> (lines 83--97): the parent id (\<open>None\<close> at the root) and
  the index of the first node with the id, in preorder.  \<open>find_parent_loop ns k\<close>
  runs the \<open>for\<close> loop from index \<open>k\<close>, \<open>ns\<close> being the rest of the array.\<close>

function find_parent_info :: "node list \<Rightarrow> node_id \<Rightarrow> node_id option \<Rightarrow> (node_id option \<times> nat) option"
  and find_parent_loop :: "node list \<Rightarrow> nat \<Rightarrow> node_id \<Rightarrow> node_id option \<Rightarrow> (node_id option \<times> nat) option" where
  "find_parent_info nodes i p = find_parent_loop nodes 0 i p"
| "find_parent_loop [] k i p = None"
| "find_parent_loop (Node j nm ch lz # ns) k i p =
     (if j = i then Some (p, k)
      else case ch of
        Some (c # cs) \<Rightarrow>
          (case find_parent_info (c # cs) i (Some j) of
             Some f \<Rightarrow> Some f
           | None \<Rightarrow> find_parent_loop ns (Suc k) i p)
      | _ \<Rightarrow> find_parent_loop ns (Suc k) i p)"
  by pat_completeness auto
termination
  by (relation "measure (case_sum (\<lambda>(ns, i, p). 2 * size_list size ns + 1)
                                  (\<lambda>(rest, k, i, p). 2 * size_list size rest))") auto

text \<open>\<open>getChildren\<close> (lines 99--102).\<close>

definition get_children :: "node list \<Rightarrow> node_id option \<Rightarrow> node list" where
  "get_children nodes p =
     (case p of
        None \<Rightarrow> nodes
      | Some q \<Rightarrow> (case find_node nodes q of None \<Rightarrow> [] | Some n \<Rightarrow> children_list n))"

text \<open>\<open>insertNodeAt\<close> (lines 104--124): the index is clamped into
  \<open>[0, length]\<close>; inserting under a parent also sets its \<open>lazy\<close> to \<open>false\<close>.
  \<open>insert_child\<close> is the updater passed to \<open>updateNode\<close> (lines 117--123).\<close>

definition insert_child :: "node \<Rightarrow> int \<Rightarrow> node \<Rightarrow> node" where
  "insert_child x k pn =
     Node (nid pn) (name pn)
       (Some (splice_in (clamp_index k (length (children_list pn))) x (children_list pn)))
       (Some False)"

definition insert_node_at :: "node list \<Rightarrow> node \<Rightarrow> node_id option \<Rightarrow> int \<Rightarrow> node list" where
  "insert_node_at nodes x p k =
     (case p of
        None \<Rightarrow> splice_in (clamp_index k (length nodes)) x nodes
      | Some q \<Rightarrow> update_node nodes q (insert_child x k))"

text \<open>\<open>moveNode\<close> (lines 126--154).  The list guard tests \<open>dest.parentId\<close> for
  truthiness, so an empty parent id skips the cycle check.\<close>

definition move_node :: "node list \<Rightarrow> node_id \<Rightarrow> drop_destination \<Rightarrow> node list" where
  "move_node tree d dest =
     (case remove_node tree d of
        (_, None) \<Rightarrow> tree
      | (tree_without, Some dragged) \<Rightarrow>
          (case dest of
             DList p \<Rightarrow>
               (if (case p of None \<Rightarrow> False | Some q \<Rightarrow> q \<noteq> [] \<and> contains_node dragged q) then tree
                else insert_node_at tree_without dragged p
                       (int (length (get_children tree_without p))))
           | DNode t pos \<Rightarrow>
               (if contains_node dragged t then tree
                else case find_parent_info tree_without t None of
                  None \<Rightarrow> tree
                | Some (pp, idx) \<Rightarrow>
                    (if pos = Inside
                     then insert_node_at tree_without dragged (Some t)
                            (int (length (get_children tree_without (Some t))))
                     else
                       (let sibs = get_children tree_without pp;
                            safe = int (clamp_index (int idx) (length sibs))
                        in insert_node_at tree_without dragged pp
                             (if pos = Before then safe else safe + 1))))))"


subsection \<open>Reference definitions\<close>

text \<open>What \<open>removeNode\<close> computes, stated directly: the forest with every node of
  the id pruned, and the nodes of the id that are not below another one, in preorder.\<close>

fun prune_forest :: "node list \<Rightarrow> node_id \<Rightarrow> node list" where
  "prune_forest [] i = []"
| "prune_forest (Node j nm None lz # ns) i =
     (if j = i then prune_forest ns i else Node j nm None lz # prune_forest ns i)"
| "prune_forest (Node j nm (Some cs) lz # ns) i =
     (if j = i then prune_forest ns i else Node j nm (Some (prune_forest cs i)) lz # prune_forest ns i)"

fun top_matches :: "node list \<Rightarrow> node_id \<Rightarrow> node list" where
  "top_matches [] i = []"
| "top_matches (Node j nm None lz # ns) i =
     (if j = i then [Node j nm None lz] else []) @ top_matches ns i"
| "top_matches (Node j nm (Some cs) lz # ns) i =
     (if j = i then [Node j nm (Some cs) lz] else top_matches cs i) @ top_matches ns i"

definition last_match :: "node list \<Rightarrow> node_id \<Rightarrow> node option" where
  "last_match ns i = (if top_matches ns i = [] then None else Some (last (top_matches ns i)))"

text \<open>A destination the spec calls valid: a list destination names an existing
  parent (or the root).\<close>

definition dest_ok :: "node list \<Rightarrow> drop_destination \<Rightarrow> bool" where
  "dest_ok ns dest = (case dest of DList (Some q) \<Rightarrow> q \<in> set (forest_ids ns) | _ \<Rightarrow> True)"

text \<open>Example forests for the witnesses: the spec's scenario forests.\<close>

abbreviation ex_forest :: "node list" where
  "ex_forest \<equiv> [Node ''A'' ''A'' (Some [Node ''B'' ''B'' None None, Node ''C'' ''C'' None None]) None]"

abbreviation ex_nested :: "node list" where
  "ex_nested \<equiv> [Node ''A'' ''A'' (Some [Node ''B'' ''B'' None None]) None]"

section \<open>Lookup: \<open>findNode\<close> and \<open>containsNode\<close>\<close>

lemma find_node_eq_find:
  "find_node ns i = find (\<lambda>n. nid n = i) (forest_nodes ns)"
proof (induction ns i rule: find_node.induct)
  case (1 i)
  then show ?case by simp
next
  case (2 j nm ch lz ns i)
  consider "ch = None" | "ch = Some []" | c cs where "ch = Some (c # cs)"
    by (metis list.exhaust option.exhaust)
  then show ?case
  proof cases
    case 1
    with "2.IH" show ?thesis by simp
  next
    case 2
    with "2.IH" show ?thesis by simp
  next
    case 3
    with "2.IH" show ?thesis by (simp add: find_append split: option.split)
  qed
qed

lemma find_node_SomeD:
  "find_node ns i = Some n \<Longrightarrow> n \<in> set (forest_nodes ns) \<and> nid n = i"
  by (auto simp: find_node_eq_find find_Some_iff dest: nth_mem)

lemma find_node_None_iff:
  "find_node ns i = None \<longleftrightarrow> i \<notin> set (forest_ids ns)"
  by (auto simp: find_node_eq_find find_None_iff forest_ids_def)

lemma find_node_unique:
  "ids_ok ns \<Longrightarrow> n \<in> set (forest_nodes ns) \<Longrightarrow> find_node ns (nid n) = Some n"
  unfolding find_node_eq_find ids_ok_def forest_ids_def by (rule find_distinct_map) simp_all

lemma contains_node_iff:
  "contains_node n i \<longleftrightarrow> i \<in> set (node_ids n)"
proof (induction n i rule: contains_node.induct)
  case (1 j nm lz i)
  then show ?case by auto
next
  case (2 j nm cs lz i)
  have "list_ex (\<lambda>c. contains_node c i) cs \<longleftrightarrow> (\<exists>c \<in> set cs. i \<in> set (node_ids c))"
    using "2.IH" by (auto simp: list_ex_iff)
  also have "\<dots> \<longleftrightarrow> i \<in> set (forest_ids cs)"
    by (induction cs) auto
  finally show ?case by auto
qed

lemma find_node_first_match:
  "find_node ns i = Some n \<longleftrightarrow>
   (\<exists>us vs. forest_nodes ns = us @ n # vs \<and> nid n = i \<and> (\<forall>u \<in> set us. nid u \<noteq> i))"
  by (simp add: find_node_eq_find find_Some_split)

section \<open>\<open>updateNode\<close>\<close>

lemma update_node_noop:
  "i \<notin> set (forest_ids ns) \<Longrightarrow> update_node ns i f = ns"
proof (induction ns i f rule: update_node.induct)
  case (1 i f)
  then show ?case by simp
next
  case (2 j nm ch lz ns i f)
  then show ?case by (cases ch rule: children_cases) auto
qed

lemma update_node_in:
  "find_node ns i = Some n \<Longrightarrow> f n \<in> set (forest_nodes (update_node ns i f))"
proof (induction ns i f rule: update_node.induct)
  case (1 i f)
  then show ?case by simp
next
  case (2 j nm ch lz ns i f)
  show ?case
  proof (cases "j = i")
    case True
    with "2.prems" have "n = Node j nm ch lz" by simp
    with True show ?thesis by simp
  next
    case False
    then show ?thesis
    proof (cases ch rule: children_cases)
      case Absent
      with False "2.prems" "2.IH"(2) show ?thesis by simp
    next
      case Empty
      with False "2.prems" "2.IH"(2) show ?thesis by simp
    next
      case (NonEmpty c cs)
      show ?thesis
      proof (cases "find_node (c # cs) i")
        case None
        with False NonEmpty "2.prems" "2.IH"(2) show ?thesis by simp
      next
        case (Some m)
        with False NonEmpty "2.prems" have "m = n" by simp
        with Some False NonEmpty "2.IH"(1) show ?thesis by simp
      qed
    qed
  qed
qed

lemma update_node_mset:
  "ids_ok ns \<Longrightarrow> find_node ns i = Some n \<Longrightarrow>
   mset (forest_ids (update_node ns i f)) + mset (node_ids n) =
   mset (forest_ids ns) + mset (node_ids (f n))"
proof (induction ns i f rule: update_node.induct)
  case (1 i f)
  then show ?case by simp
next
  case (2 j nm ch lz ns i f)
  let ?h = "Node j nm ch lz"
  note ok = ids_ok_ConsD [OF "2.prems"(1)]
  show ?case
  proof (cases "j = i")
    case True
    with "2.prems"(2) have n: "n = ?h" by simp
    from True ok(1) have "update_node ns i f = ns" by (simp add: update_node_noop)
    with True n show ?thesis by simp
  next
    case False
    then show ?thesis
    proof (cases ch rule: children_cases)
      case Absent
      with False "2.prems" "2.IH"(2) [OF ok(3)] show ?thesis by simp
    next
      case Empty
      with False "2.prems" "2.IH"(2) [OF ok(3)] show ?thesis by simp
    next
      case (NonEmpty c cs)
      show ?thesis
      proof (cases "find_node (c # cs) i")
        case None
        then have "update_node (c # cs) i f = c # cs" by (simp add: update_node_noop find_node_None_iff)
        with None False NonEmpty "2.prems" "2.IH"(2) [OF ok(3)] show ?thesis by simp
      next
        case (Some m)
        with False NonEmpty "2.prems" have m: "m = n" by simp
        from Some have i_in: "i \<in> set (forest_ids (c # cs))"
          by (metis find_node_None_iff option.distinct(1))
        have "set (forest_ids (c # cs)) \<inter> set (forest_ids ns) = {}"
          using ok(4) NonEmpty by simp
        with i_in have "update_node ns i f = ns" by (blast intro: update_node_noop)
        moreover from NonEmpty ok(2) have "ids_ok (c # cs)" by simp
        ultimately show ?thesis using Some m False NonEmpty "2.IH"(1) by simp
      qed
    qed
  qed
qed

lemma update_node_lazy_ok:
  "(\<And>m. lazy_ok [m] \<Longrightarrow> lazy_ok [f m]) \<Longrightarrow> lazy_ok ns \<Longrightarrow> lazy_ok (update_node ns i f)"
proof (induction ns i f rule: update_node.induct)
  case (1 i f)
  then show ?case by simp
next
  case (2 j nm ch lz ns i f)
  then show ?case by (cases ch rule: children_cases) auto
qed

section \<open>\<open>updateNode\<close> on a bounded call stack, and \<open>createId\<close>\<close>

lemma forest_depth_Cons_pos: "0 < forest_depth (n # ns)"
  by (cases n; cases "children n") auto

lemma forest_depth_Cons: "forest_depth (n # ns) = max (Suc (forest_depth (children_list n))) (forest_depth ns)"
  by (cases n; cases "children n") (auto simp: children_list_def)

lemma create_id_tree_fallback:
  "\<not> has_uuid \<Longrightarrow> create_id_tree has_uuid uuid now rnd \<noteq> [] \<and> take 5 (create_id_tree has_uuid uuid now rnd) = ''node_''"
  by (simp add: create_id_tree_def)

lemma forest_depth_single_Some:
  "forest_depth [Node j nm (Some (c # cs)) lz] = Suc (forest_depth (c # cs))"
  by simp

lemma update_node_st_enough:
  "forest_depth ns \<le> Suc d \<Longrightarrow> update_node_st d ns i f = Some (update_node ns i f)"
  "forest_depth [n] \<le> Suc d \<Longrightarrow> update_one_st d n i f = Some (hd (update_node [n] i f))"
proof (induction d ns i f and d n i f rule: update_node_st_update_one_st.induct)
  case (2 d n ns i f)
  then have "forest_depth [n] \<le> Suc d" "forest_depth ns \<le> Suc d"
    by (simp_all add: forest_depth_Cons)
  with 2 show ?case by (cases n) simp
next
  case (3 d j nm ch lz i f)
  consider "j = i" | "j \<noteq> i" "ch = None \<or> ch = Some []" | c cs where "j \<noteq> i" "ch = Some (c # cs)"
    by (metis list.exhaust option.exhaust)
  then show ?case
  proof cases
    case (3 c cs)
    have dep: "forest_depth (c # cs) \<le> d"
      using "3.prems" 3 by simp
    then obtain d' where d: "d = Suc d'"
      using forest_depth_Cons_pos [of c cs] by (cases d) auto
    have "update_node_st d' (c # cs) i f = Some (update_node (c # cs) i f)"
      using "3.IH" [OF 3(1,2) refl d] dep d by simp
    with 3 d show ?thesis by (simp del: update_node_st.simps(2))
  qed auto
qed simp

lemma update_node_st_absent:
  "i \<notin> set (forest_ids ns) \<Longrightarrow> update_node_st d ns i f = None \<longleftrightarrow> Suc d < forest_depth ns"
  "i \<notin> set (forest_ids [n]) \<Longrightarrow> update_one_st d n i f = None \<longleftrightarrow> Suc d < forest_depth [n]"
proof (induction d ns i f and d n i f rule: update_node_st_update_one_st.induct)
  case (2 d n ns i f)
  then show ?case by (auto simp: forest_depth_Cons split: option.split)
next
  case (3 d j nm ch lz i f)
  then have ji: "j \<noteq> i" by auto
  consider "ch = None \<or> ch = Some []" | c cs where "ch = Some (c # cs)"
    by (metis list.exhaust option.exhaust)
  then show ?case
  proof cases
    case (2 c cs)
    show ?thesis
    proof (cases d)
      case 0
      then show ?thesis using ji 2 forest_depth_Cons_pos [of c cs] by simp
    next
      case (Suc d')
      have "update_node_st d' (c # cs) i f = None \<longleftrightarrow> Suc d' < forest_depth (c # cs)"
        using "3.IH" [OF ji 2 refl Suc] "3.prems" 2 by simp
      with ji 2 Suc show ?thesis by (simp del: update_node_st.simps(2))
    qed
  qed (use ji in auto)
qed simp

section \<open>\<open>removeNode\<close> against a reference definition\<close>

lemma top_matches_Nil_iff:
  "top_matches ns i = [] \<longleftrightarrow> i \<notin> set (forest_ids ns)"
  by (induction ns i rule: top_matches.induct) auto

lemma prune_forest_noop:
  "i \<notin> set (forest_ids ns) \<Longrightarrow> prune_forest ns i = ns"
  by (induction ns i rule: prune_forest.induct) auto

lemma remove_node_loop_eq:
  "remove_node nodes i = (prune_forest nodes i, last_match nodes i)"
  "remove_loop nodes rest i nx removed changed =
     (if changed \<or> top_matches rest i \<noteq> [] then nx @ prune_forest rest i else nodes,
      case last_match rest i of None \<Rightarrow> removed | Some r \<Rightarrow> Some r)"
proof (induction nodes i and nodes rest i nx removed changed rule: remove_node_remove_loop.induct)
  case (1 nodes i)
  then show ?case
    by (auto simp: last_match_def top_matches_Nil_iff prune_forest_noop)
next
  case (2 nodes i nx removed changed)
  then show ?case by (simp add: last_match_def)
next
  case (3 nodes j nm ch lz ns i nx removed changed)
  let ?h = "Node j nm ch lz"
  show ?case
  proof (cases "j = i")
    case True
    have "remove_loop nodes (?h # ns) i nx removed changed =
          remove_loop nodes ns i nx (Some ?h) True"
      using True by simp
    also have "\<dots> = (nx @ prune_forest ns i, case last_match ns i of None \<Rightarrow> Some ?h | Some r \<Rightarrow> Some r)"
      using "3.IH"(1) [OF True] by simp
    finally show ?thesis
      using True by (cases ch) (simp_all add: last_match_def)
  next
    case False
    then show ?thesis
    proof (cases ch rule: children_cases)
      case Absent
      with "3.IH"(2) [OF False Absent] False show ?thesis by (simp add: last_match_def)
    next
      case Empty
      with "3.IH"(3) [OF False Empty refl] False show ?thesis by (simp add: last_match_def)
    next
      case (NonEmpty c cs)
      have rn: "remove_node (c # cs) i = (prune_forest (c # cs) i, last_match (c # cs) i)"
        by (rule "3.IH"(4) [OF False NonEmpty refl])
      show ?thesis
      proof (cases "last_match (c # cs) i")
        case None
        then have top: "top_matches (c # cs) i = []" by (simp add: last_match_def split: if_splits)
        then have pr: "prune_forest (c # cs) i = c # cs"
          by (intro prune_forest_noop) (simp only: top_matches_Nil_iff [symmetric])
        have ih: "remove_loop nodes ns i (nx @ [?h]) removed changed =
          (if changed \<or> top_matches ns i \<noteq> [] then (nx @ [?h]) @ prune_forest ns i else nodes,
           case last_match ns i of None \<Rightarrow> removed | Some r \<Rightarrow> Some r)"
          by (rule "3.IH"(5) [OF False NonEmpty refl rn [symmetric] None])
        from False NonEmpty rn None have "remove_loop nodes (?h # ns) i nx removed changed =
            remove_loop nodes ns i (nx @ [?h]) removed changed"
          by simp
        with ih top pr False NonEmpty show ?thesis by (simp add: last_match_def)
      next
        case (Some r)
        then have top: "top_matches (c # cs) i \<noteq> []" and r: "r = last (top_matches (c # cs) i)"
          by (simp_all add: last_match_def split: if_splits)
        have ih: "remove_loop nodes ns i (nx @ [Node j nm (Some (prune_forest (c # cs) i)) lz]) (Some r) True =
          ((nx @ [Node j nm (Some (prune_forest (c # cs) i)) lz]) @ prune_forest ns i,
           case last_match ns i of None \<Rightarrow> Some r | Some r' \<Rightarrow> Some r')"
          using "3.IH"(6) [OF False NonEmpty refl rn [symmetric] Some] by simp
        from False NonEmpty rn Some have "remove_loop nodes (?h # ns) i nx removed changed =
            remove_loop nodes ns i (nx @ [Node j nm (Some (prune_forest (c # cs) i)) lz]) (Some r) True"
          by simp
        with ih top r False NonEmpty show ?thesis
          by (simp add: last_match_def split: if_splits)
      qed
    qed
  qed
qed

lemma prune_forest_mset:
  "mset (forest_ids ns) = mset (forest_ids (prune_forest ns i)) + mset (forest_ids (top_matches ns i))"
  by (induction ns i rule: prune_forest.induct) auto

lemma prune_forest_removes: "i \<notin> set (forest_ids (prune_forest ns i))"
  by (induction ns i rule: prune_forest.induct) auto

lemma top_matches_nodes:
  "m \<in> set (top_matches ns i) \<Longrightarrow> m \<in> set (forest_nodes ns) \<and> nid m = i"
proof (induction ns i rule: top_matches.induct)
  case (3 j nm cs lz ns i)
  then show ?case by (auto split: if_splits)
qed (auto split: if_splits)

lemma prune_forest_lazy_ok: "lazy_ok ns \<Longrightarrow> lazy_ok (prune_forest ns i)"
  by (induction ns i rule: prune_forest.induct) auto

lemma length_le_count_forest_ids:
  "\<forall>m \<in> set ms. nid m = i \<Longrightarrow> length ms \<le> count (mset (forest_ids ms)) i"
  by (induction ms) auto

lemma top_matches_unique:
  assumes ok: "ids_ok ns" and f: "find_node ns i = Some n"
  shows "top_matches ns i = [n]"
proof -
  have all: "\<forall>m \<in> set (top_matches ns i). nid m = i"
    using top_matches_nodes by blast
  have "count (mset (forest_ids ns)) i \<le> 1"
    using ok by (simp add: ids_ok_def distinct_count_atmost_1)
  then have "count (mset (forest_ids (top_matches ns i))) i \<le> 1"
    using prune_forest_mset [of ns i] by (metis count_union le_add2 order_trans)
  then have len: "length (top_matches ns i) \<le> 1"
    using length_le_count_forest_ids [OF all] by linarith
  have ne: "top_matches ns i \<noteq> []"
    using f by (simp add: top_matches_Nil_iff flip: find_node_None_iff)
  obtain m where tm: "top_matches ns i = [m]"
    using len ne by (cases "top_matches ns i") auto
  then have "m \<in> set (top_matches ns i)" by simp
  then have "m \<in> set (forest_nodes ns)" and "nid m = i"
    using top_matches_nodes by blast+
  then have "find_node ns i = Some m"
    using find_node_unique [OF ok] by metis
  with f tm show ?thesis by simp
qed

lemma remove_node_noop:
  "i \<notin> set (forest_ids ns) \<Longrightarrow> remove_node ns i = (ns, None)"
  unfolding remove_node_loop_eq(1)
  by (simp add: prune_forest_noop last_match_def top_matches_Nil_iff)

lemma remove_node_found:
  assumes "ids_ok ns" and "find_node ns i = Some n"
  shows "remove_node ns i = (prune_forest ns i, Some n)"
    and "mset (forest_ids (prune_forest ns i)) + mset (node_ids n) = mset (forest_ids ns)"
  unfolding remove_node_loop_eq(1)
  using top_matches_unique [OF assms] prune_forest_mset [of ns i]
  by (simp_all add: last_match_def)

section \<open>\<open>findParentInfo\<close>\<close>

lemma find_parent_None_iff:
  "find_parent_info nodes i p = None \<longleftrightarrow> i \<notin> set (forest_ids nodes)"
  "find_parent_loop ns k i p = None \<longleftrightarrow> i \<notin> set (forest_ids ns)"
proof (induction nodes i p and ns k i p rule: find_parent_info_find_parent_loop.induct)
  case (3 j nm ch lz ns k i p)
  show ?case
  proof (cases "j = i")
    case True
    then show ?thesis by simp
  next
    case False
    then show ?thesis
    proof (cases ch rule: children_cases)
      case Absent
      with False "3.IH"(1) show ?thesis by simp
    next
      case Empty
      with False "3.IH"(2) show ?thesis by simp
    next
      case (NonEmpty c cs)
      note ih = "3.IH"(3) [OF False NonEmpty refl] "3.IH"(4) [OF False NonEmpty refl]
      show ?thesis
        using False NonEmpty ih by (cases "find_parent_info (c # cs) i (Some j)") auto
    qed
  qed
qed simp_all

lemma find_parent_SomeD:
  "find_parent_info nodes i p = Some (pp, idx) \<Longrightarrow>
     (pp = p \<and> idx < length nodes \<and> nid (nodes ! idx) = i) \<or>
     (\<exists>m \<in> set (forest_nodes nodes).
        pp = Some (nid m) \<and> idx < length (children_list m) \<and> nid (children_list m ! idx) = i)"
  "find_parent_loop ns k i p = Some (pp, idx) \<Longrightarrow>
     (pp = p \<and> k \<le> idx \<and> idx - k < length ns \<and> nid (ns ! (idx - k)) = i) \<or>
     (\<exists>m \<in> set (forest_nodes ns).
        pp = Some (nid m) \<and> idx < length (children_list m) \<and> nid (children_list m ! idx) = i)"
proof (induction nodes i p and ns k i p rule: find_parent_info_find_parent_loop.induct)
  case (1 nodes i p)
  then show ?case by simp
next
  case (2 k i p)
  then show ?case by simp
next
  case (3 j nm ch lz ns k i p)
  let ?h = "Node j nm ch lz"
  have shift: "?case"
    if "(pp = p \<and> Suc k \<le> idx \<and> idx - Suc k < length ns \<and> nid (ns ! (idx - Suc k)) = i) \<or>
      (\<exists>m \<in> set (forest_nodes ns).
         pp = Some (nid m) \<and> idx < length (children_list m) \<and> nid (children_list m ! idx) = i)"
    using that
  proof
    assume a: "pp = p \<and> Suc k \<le> idx \<and> idx - Suc k < length ns \<and> nid (ns ! (idx - Suc k)) = i"
    then have "idx - k = Suc (idx - Suc k)" by arith
    with a show ?thesis by auto
  qed auto
  show ?case
  proof (cases "j = i")
    case True
    with "3.prems" show ?thesis by simp
  next
    case False
    then show ?thesis
    proof (cases ch rule: children_cases)
      case Absent
      with False "3.prems" show ?thesis by (intro shift "3.IH"(1)) simp_all
    next
      case Empty
      with False "3.prems" show ?thesis by (intro shift "3.IH"(2)) simp_all
    next
      case (NonEmpty c cs)
      show ?thesis
      proof (cases "find_parent_info (c # cs) i (Some j)")
        case None
        with False NonEmpty "3.prems" show ?thesis
          by (intro shift "3.IH"(4) [OF False NonEmpty refl None]) simp
      next
        case (Some f)
        with False NonEmpty "3.prems" have f: "find_parent_info (c # cs) i (Some j) = Some (pp, idx)"
          by simp
        from "3.IH"(3) [OF False NonEmpty refl f] show ?thesis
        proof
          assume "pp = Some j \<and> idx < length (c # cs) \<and> nid ((c # cs) ! idx) = i"
          with NonEmpty show ?thesis by (auto intro: bexI [of _ ?h])
        qed (use NonEmpty in auto)
      qed
    qed
  qed
qed

lemma find_parent_info_parent:
  "find_parent_info ns i p = Some (Some q, idx) \<Longrightarrow> q \<in> set (forest_ids ns) \<or> p = Some q"
  by (drule find_parent_SomeD(1)) (auto dest: forest_nodes_mem_ids)

section \<open>\<open>insertNodeAt\<close>\<close>

lemma mset_forest_ids_splice_in:
  "mset (forest_ids (splice_in k x xs)) = mset (forest_ids xs) + mset (node_ids x)"
proof -
  have "mset (forest_ids xs) = mset (forest_ids (take k xs)) + mset (forest_ids (drop k xs))"
    by (metis append_take_drop_id forest_ids_simps(3) mset_append)
  then show ?thesis by (simp add: splice_in_def)
qed

lemma insert_child_ids:
  "mset (node_ids (insert_child x k pn)) = mset (node_ids pn) + mset (node_ids x)"
  by (simp add: insert_child_def mset_forest_ids_splice_in)

lemma lazy_ok_splice_in:
  assumes "lazy_ok xs" and "lazy_ok [x]"
  shows "lazy_ok (splice_in k x xs)"
proof -
  have "lazy_ok (take k xs) \<and> lazy_ok (drop k xs)"
    using assms(1) lazy_ok_simps(3) [of "take k xs" "drop k xs"] by simp
  with assms(2) show ?thesis by (simp add: splice_in_def)
qed

lemma insert_child_lazy_ok:
  "lazy_ok [x] \<Longrightarrow> lazy_ok [pn] \<Longrightarrow> lazy_ok [insert_child x k pn]"
  by (simp add: insert_child_def lazy_ok_splice_in)

lemma insert_node_at_root:
  "insert_node_at ns x None k = splice_in (clamp_index k (length ns)) x ns"
  by (simp add: insert_node_at_def)

lemma insert_node_at_noop:
  "q \<notin> set (forest_ids ns) \<Longrightarrow> insert_node_at ns x (Some q) k = ns"
  by (simp add: insert_node_at_def update_node_noop)

lemma insert_node_at_mset:
  assumes "ids_ok ns" and "case p of None \<Rightarrow> True | Some q \<Rightarrow> q \<in> set (forest_ids ns)"
  shows "mset (forest_ids (insert_node_at ns x p k)) = mset (forest_ids ns) + mset (node_ids x)"
proof (cases p)
  case None
  then show ?thesis by (simp add: insert_node_at_def mset_forest_ids_splice_in)
next
  case (Some q)
  with assms obtain pn where pn: "find_node ns q = Some pn"
    by (cases "find_node ns q") (simp_all add: find_node_None_iff)
  let ?R = "update_node ns q (insert_child x k)"
  have "mset (forest_ids ?R) + mset (node_ids pn) =
        mset (forest_ids ns) + (mset (node_ids pn) + mset (node_ids x))"
    using update_node_mset [OF assms(1) pn, of "insert_child x k"]
    by (simp only: insert_child_ids)
  then have "mset (forest_ids ?R) + mset (node_ids pn) =
        (mset (forest_ids ns) + mset (node_ids x)) + mset (node_ids pn)"
    by (simp only: ac_simps)
  then have "mset (forest_ids ?R) = mset (forest_ids ns) + mset (node_ids x)"
    by (rule add_right_imp_eq)
  with Some show ?thesis by (simp add: insert_node_at_def)
qed

lemma insert_node_at_lazy_ok:
  assumes "lazy_ok ns" and x: "lazy_ok [x]"
  shows "lazy_ok (insert_node_at ns x p k)"
proof (cases p)
  case None
  with assms show ?thesis by (simp add: insert_node_at_def lazy_ok_splice_in)
next
  case (Some q)
  have "lazy_ok [m] \<Longrightarrow> lazy_ok [insert_child x k m]" for m
    using x by (rule insert_child_lazy_ok)
  then have "lazy_ok (update_node ns q (insert_child x k))"
    using assms(1) by (rule update_node_lazy_ok)
  with Some show ?thesis by (simp add: insert_node_at_def)
qed

lemma insert_node_at_child:
  assumes ok: "ids_ok (ns @ [x])" and pn: "find_node ns q = Some pn"
  shows "find_node (insert_node_at ns x (Some q) k) q = Some (insert_child x k pn)"
proof -
  let ?r = "insert_node_at ns x (Some q) k"
  have okn: "ids_ok ns" using ok by (simp add: ids_ok_append)
  have q_in: "q \<in> set (forest_ids ns)"
    using pn by (metis find_node_None_iff option.distinct(1))
  have "mset (forest_ids ?r) = mset (forest_ids (ns @ [x]))"
    using insert_node_at_mset [OF okn, of "Some q" x k] q_in by simp
  then have okr: "ids_ok ?r" using ok by (rule ids_ok_mset)
  have "insert_child x k pn \<in> set (forest_nodes ?r)"
    using update_node_in [OF pn] by (simp add: insert_node_at_def)
  moreover have "nid (insert_child x k pn) = q"
    using find_node_SomeD [OF pn] by (simp add: insert_child_def)
  ultimately show ?thesis using find_node_unique [OF okr] by metis
qed

section \<open>\<open>moveNode\<close>\<close>

text \<open>Every outcome of \<open>moveNode\<close> on a well-formed forest: the forest unchanged, or
  the dragged subtree (the node \<open>findNode\<close> returns) inserted into the forest without
  it, under the root, under a node of that forest, or under a list parent that is in
  no forest at all.\<close>

lemma move_node_cases:
  assumes ok: "ids_ok ns"
  obtains (unchanged) "move_node ns d dest = ns"
  | (moved) n p k where "find_node ns d = Some n"
      "move_node ns d dest = insert_node_at (prune_forest ns d) n p k"
      "case p of None \<Rightarrow> True
       | Some q \<Rightarrow> q \<in> set (forest_ids (prune_forest ns d)) \<or>
                  (dest = DList p \<and> q \<notin> set (forest_ids ns))"
proof (cases "find_node ns d")
  case None
  then have "remove_node ns d = (ns, None)"
    by (intro remove_node_noop) (simp add: find_node_None_iff)
  then show ?thesis by (intro unchanged) (simp add: move_node_def)
next
  case (Some n)
  let ?tw = "prune_forest ns d"
  have rm: "remove_node ns d = (?tw, Some n)" by (rule remove_node_found(1) [OF ok Some])
  have "mset (forest_ids ?tw) + mset (node_ids n) = mset (forest_ids ns)"
    by (rule remove_node_found(2) [OF ok Some])
  then have sets: "set (forest_ids ns) = set (forest_ids ?tw) \<union> set (node_ids n)"
    by (metis set_mset_mset set_mset_union)
  have ne: "[] \<notin> set (forest_ids ns)" using ok by (simp add: ids_ok_def)
  show ?thesis
  proof (cases dest)
    case (DList p)
    show ?thesis
    proof (cases "case p of None \<Rightarrow> False | Some q \<Rightarrow> q \<noteq> [] \<and> contains_node n q")
      case True
      with rm DList show ?thesis by (intro unchanged) (simp add: move_node_def)
    next
      case False
      have mv: "move_node ns d dest = insert_node_at ?tw n p (int (length (get_children ?tw p)))"
        using rm DList False by (simp add: move_node_def)
      have "case p of None \<Rightarrow> True
            | Some q \<Rightarrow> q \<in> set (forest_ids ?tw) \<or> (dest = DList p \<and> q \<notin> set (forest_ids ns))"
      proof (cases p)
        case (Some q)
        with False have "q = [] \<or> q \<notin> set (node_ids n)" by (auto simp: contains_node_iff)
        with ne sets DList Some show ?thesis by auto
      qed simp
      with Some mv show ?thesis by (rule moved)
    qed
  next
    case (DNode t pos)
    show ?thesis
    proof (cases "contains_node n t")
      case True
      with rm DNode show ?thesis by (intro unchanged) (simp add: move_node_def)
    next
      case False
      show ?thesis
      proof (cases "find_parent_info ?tw t None")
        case None
        with rm DNode False show ?thesis by (intro unchanged) (simp add: move_node_def)
      next
        case (Some r)
        obtain pp idx where r: "r = (pp, idx)" by (cases r)
        have t_in: "t \<in> set (forest_ids ?tw)"
          using Some find_parent_None_iff(1) [of ?tw t None] by auto
        show ?thesis
        proof (cases "pos = Inside")
          case True
          have "move_node ns d dest =
                insert_node_at ?tw n (Some t) (int (length (get_children ?tw (Some t))))"
            using rm DNode False Some r True by (simp add: move_node_def)
          with \<open>find_node ns d = Some n\<close> show ?thesis by (rule moved) (simp add: t_in)
        next
          case notin: False
          let ?safe = "int (clamp_index (int idx) (length (get_children ?tw pp)))"
          have "move_node ns d dest =
                insert_node_at ?tw n pp (if pos = Before then ?safe else ?safe + 1)"
            using rm DNode False Some r notin by (simp add: move_node_def Let_def)
          moreover have "case pp of None \<Rightarrow> True | Some q \<Rightarrow> q \<in> set (forest_ids ?tw)"
            using find_parent_info_parent [of ?tw t None] Some r by (cases pp) auto
          ultimately show ?thesis using \<open>find_node ns d = Some n\<close>
            by (intro moved) (auto split: option.splits)
        qed
      qed
    qed
  qed
qed

lemma mem_forest_nodes: "x \<in> set xs \<Longrightarrow> x \<in> set (forest_nodes xs)"
  by (induction xs) auto

lemma insert_node_at_in:
  assumes "case p of None \<Rightarrow> True | Some q \<Rightarrow> q \<in> set (forest_ids ns)"
  shows "x \<in> set (forest_nodes (insert_node_at ns x p k))"
proof (cases p)
  case None
  then show ?thesis by (simp add: insert_node_at_def splice_in_def)
next
  case (Some q)
  with assms obtain pn where pn: "find_node ns q = Some pn"
    by (cases "find_node ns q") (simp_all add: find_node_None_iff)
  let ?c = "insert_child x k pn"
  have c_in: "?c \<in> set (forest_nodes (insert_node_at ns x p k))"
    using update_node_in [OF pn] Some by (simp add: insert_node_at_def)
  have "x \<in> set (forest_nodes (children_list ?c))"
    by (intro mem_forest_nodes) (simp add: insert_child_def)
  with forest_nodes_children_subset [OF c_in] show ?thesis by blast
qed

lemma remove_parts:
  assumes ok: "ids_ok ns" and n: "find_node ns d = Some n"
  shows "ids_ok (prune_forest ns d)"
    and "set (forest_ids ns) = set (forest_ids (prune_forest ns d)) \<union> set (node_ids n)"
proof -
  have ms: "mset (forest_ids (prune_forest ns d)) + mset (node_ids n) = mset (forest_ids ns)"
    by (rule remove_node_found(2) [OF ok n])
  then show "ids_ok (prune_forest ns d)"
    using ok by (metis ids_ok_subset_mset mset_subset_eq_add_left)
  from ms show "set (forest_ids ns) = set (forest_ids (prune_forest ns d)) \<union> set (node_ids n)"
    by (metis set_mset_mset set_mset_union)
qed

lemma move_node_moved_mset:
  assumes ok: "ids_ok ns" and n: "find_node ns d = Some n"
    and p: "case p of None \<Rightarrow> True | Some q \<Rightarrow> q \<in> set (forest_ids (prune_forest ns d))"
  shows "mset (forest_ids (insert_node_at (prune_forest ns d) n p k)) = mset (forest_ids ns)"
  using insert_node_at_mset [OF remove_parts(1) [OF ok n] p] remove_node_found(2) [OF ok n]
  by simp

text \<open>Every move keeps ids unique and the lazy invariant; the controller's
  invariant rests on these two facts.\<close>

lemma move_node_keeps_ids_ok:
  assumes ok: "ids_ok ns"
  shows "ids_ok (move_node ns d dest)"
  using ok
proof (cases rule: move_node_cases [where d = d and dest = dest])
  case unchanged
  with ok show ?thesis by simp
next
  case (moved n p k)
  note tw = remove_parts [OF ok moved(1)]
  show ?thesis
  proof (cases "case p of None \<Rightarrow> True | Some q \<Rightarrow> q \<in> set (forest_ids (prune_forest ns d))")
    case True
    with moved(1,2) ok show ?thesis using move_node_moved_mset [OF ok] ids_ok_mset by metis
  next
    case False
    with moved(3) tw(2) obtain q where "p = Some q" "q \<notin> set (forest_ids (prune_forest ns d))"
      by (auto split: option.splits)
    then have "move_node ns d dest = prune_forest ns d"
      using moved(2) by (simp add: insert_node_at_noop)
    with tw(1) show ?thesis by simp
  qed
qed

lemma move_node_keeps_lazy_ok:
  assumes ok: "ids_ok ns" and lz: "lazy_ok ns"
  shows "lazy_ok (move_node ns d dest)"
  using ok
proof (cases rule: move_node_cases [where d = d and dest = dest])
  case unchanged
  with lz show ?thesis by simp
next
  case (moved n p k)
  have "lazy_ok [n]"
    using lz find_node_SomeD [OF moved(1)] by (blast intro: lazy_ok_node)
  with prune_forest_lazy_ok [OF lz] moved(2) show ?thesis by (simp add: insert_node_at_lazy_ok)
qed

text \<open>Removing a node and inserting it again where \<open>findParentInfo\<close> found it.\<close>

lemma prune_forest_append: "prune_forest (xs @ ys) i = prune_forest xs i @ prune_forest ys i"
  by (induction xs i rule: prune_forest.induct) auto

lemma prune_forest_match: "nid n = i \<Longrightarrow> prune_forest (n # ns) i = prune_forest ns i"
  by (cases n; cases "children n") auto

lemma prune_forest_nth:
  assumes ok: "ids_ok ns" and k: "k < length ns" and i: "nid (ns ! k) = i"
  shows "prune_forest ns i = take k ns @ drop (Suc k) ns"
proof -
  have ns: "ns = take k ns @ ns ! k # drop (Suc k) ns" using k by (rule id_take_nth_drop)
  have "ids_ok (take k ns @ [ns ! k] @ drop (Suc k) ns)" using ok ns by simp
  then have "i \<notin> set (forest_ids (take k ns))" "i \<notin> set (forest_ids (drop (Suc k) ns))"
    using i by (auto simp: ids_ok_append ids_ok_Cons)
  then show ?thesis using i
    by (subst ns) (simp add: prune_forest_append prune_forest_match prune_forest_noop)
qed

lemma update_prune_restores:
  assumes "ids_ok ns" and "m \<in> set (forest_nodes ns)" and "i \<in> set (forest_ids (children_list m))"
    and "prune_forest [m] i = [m']" and "f m' = m"
  shows "update_node (prune_forest ns i) (nid m) f = ns"
  using assms
proof (induction ns i rule: prune_forest.induct)
  case (1 i)
  then show ?case by simp
next
  case (2 j nm lz ns i)
  then have ok: "ids_ok ns" and jn: "j \<notin> set (forest_ids ns)" by (auto simp: ids_ok_Cons)
  from "2.prems"(2,3) have "m \<in> set (forest_nodes ns)" by auto
  then have "nid m \<noteq> j" using jn by (auto dest: forest_nodes_mem_ids)
  moreover have "j \<noteq> i"
    using jn "2.prems"(3) forest_ids_children_subset [OF \<open>m \<in> set (forest_nodes ns)\<close>] by auto
  ultimately show ?case using "2.IH" [OF _ ok \<open>m \<in> set (forest_nodes ns)\<close> "2.prems"(3-5)] by simp
next
  case (3 j nm cs lz ns i)
  let ?h = "Node j nm (Some cs) lz"
  have ok: "ids_ok cs" "ids_ok ns" and jc: "j \<notin> set (forest_ids cs)" and jn: "j \<notin> set (forest_ids ns)"
    and dj: "set (forest_ids cs) \<inter> set (forest_ids ns) = {}"
    using "3.prems"(1) by (auto simp: ids_ok_Cons)
  from "3.prems"(2) consider (head) "m = ?h" | (below) "m \<in> set (forest_nodes cs)" | (rest) "m \<in> set (forest_nodes ns)"
    by auto
  then show ?case
  proof cases
    case head
    have ic: "i \<in> set (forest_ids cs)" using "3.prems"(3) head by simp
    then have ji: "j \<noteq> i" using jc by auto
    have "i \<notin> set (forest_ids ns)" using ic dj by auto
    then have pn: "prune_forest ns i = ns" by (rule prune_forest_noop)
    have "f (Node j nm (Some (prune_forest cs i)) lz) = ?h" using "3.prems"(4,5) head ji by simp
    then show ?thesis using ji pn head jn by (simp add: update_node_noop)
  next
    case below
    have mj: "nid m \<noteq> j" using below jc by (auto dest: forest_nodes_mem_ids)
    have ic: "i \<in> set (forest_ids cs)" using "3.prems"(3) forest_ids_children_subset [OF below] by auto
    then have ji: "j \<noteq> i" using jc by auto
    have "i \<notin> set (forest_ids ns)" using ic dj by auto
    then have pn: "prune_forest ns i = ns" by (rule prune_forest_noop)
    have mn: "nid m \<notin> set (forest_ids ns)" using below dj by (auto dest: forest_nodes_mem_ids)
    have u: "update_node (prune_forest cs i) (nid m) f = cs"
      using "3.IH"(2) [OF ji ok(1) below "3.prems"(3-5)] .
    obtain c' cs' where pc: "prune_forest cs i = c' # cs'"
      using u below by (cases "prune_forest cs i") auto
    show ?thesis using ji mj pn pc u mn by (simp add: update_node_noop)
  next
    case rest
    have mj: "nid m \<noteq> j" using rest jn by (auto dest: forest_nodes_mem_ids)
    have mc: "nid m \<notin> set (forest_ids cs)" using rest dj by (auto dest: forest_nodes_mem_ids)
    have ir: "i \<in> set (forest_ids ns)" using "3.prems"(3) forest_ids_children_subset [OF rest] by auto
    then have ji: "j \<noteq> i" using jn by auto
    have "i \<notin> set (forest_ids cs)" using ir dj by auto
    then have pc: "prune_forest cs i = cs" by (rule prune_forest_noop)
    have u: "update_node (prune_forest ns i) (nid m) f = ns"
      using "3.IH"(3) [OF ji ok(2) rest "3.prems"(3-5)] .
    show ?thesis using ji mj pc u mc by (cases cs) (simp_all add: update_node_noop)
  qed
qed

lemma splice_in_removed_nth:
  assumes "k < length xs"
  shows "splice_in (clamp_index (int k) (length (take k xs @ drop (Suc k) xs))) (xs ! k)
           (take k xs @ drop (Suc k) xs) = xs"
proof -
  have "clamp_index (int k) (length (take k xs @ drop (Suc k) xs)) = k"
    using assms by (simp add: clamp_index_def)
  then show ?thesis using assms by (simp add: splice_in_def min_def id_take_nth_drop [symmetric])
qed

section \<open>Properties\<close>

text \<open>Claim C1 (safety). Cycle guard of \<open>moveNode\<close>: a destination inside the dragged subtree (the dragged node itself or one of its descendants) leaves the forest unchanged.\<close>

theorem move_node_cycle_guard:
  assumes ok: "ids_ok ns" and n: "find_node ns d = Some n" and a: "a \<in> set (node_ids n)"
    and dest: "dest = DNode a pos \<or> dest = DList (Some a)"
  shows "move_node ns d dest = ns"
proof -
  have rm: "remove_node ns d = (prune_forest ns d, Some n)" by (rule remove_node_found(1) [OF ok n])
  have "a \<in> set (forest_ids ns)" using remove_parts(2) [OF ok n] a by blast
  then have "a \<noteq> []" using ok by (auto simp: ids_ok_def)
  moreover have "contains_node n a" using a by (simp add: contains_node_iff)
  ultimately show ?thesis using dest rm by (auto simp: move_node_def)
qed

theorem move_node_cycle_guard_witness:
  "ids_ok ex_nested \<and> find_node ex_nested ''A'' = Some (hd ex_nested) \<and>
   ''B'' \<in> set (node_ids (hd ex_nested)) \<and>
   move_node ex_nested ''A'' (DNode ''B'' Inside) = ex_nested"
  using move_node_cycle_guard [of ex_nested "''A''" "hd ex_nested" "''B''" "DNode ''B'' Inside" Inside]
  by (simp add: ids_ok_def)

text \<open>Claim C2 (invariant). Conservation: on a forest with unique ids and a destination whose list parent exists, \<open>moveNode\<close> keeps the multiset of all ids, so no node is lost or duplicated and the node count is unchanged.\<close>

theorem move_node_conserves:
  assumes ok: "ids_ok ns" and dok: "dest_ok ns dest"
  shows "mset (forest_ids (move_node ns d dest)) = mset (forest_ids ns)"
  using ok
proof (cases rule: move_node_cases [where d = d and dest = dest])
  case unchanged
  then show ?thesis by simp
next
  case (moved n p k)
  have "case p of None \<Rightarrow> True | Some q \<Rightarrow> q \<in> set (forest_ids (prune_forest ns d))"
    using moved(3) dok by (auto simp: dest_ok_def split: option.splits)
  with moved(1,2) show ?thesis using move_node_moved_mset [OF ok] by simp
qed

theorem move_node_conserves_witness:
  "ids_ok ex_forest \<and> dest_ok ex_forest (DNode ''C'' After) \<and>
   mset (forest_ids (move_node ex_forest ''B'' (DNode ''C'' After))) = mset (forest_ids ex_forest)"
  using move_node_conserves [of ex_forest "DNode ''C'' After" "''B''"]
  by (simp add: ids_ok_def dest_ok_def)

text \<open>Claim C3 (invariant). Uniqueness: \<open>moveNode\<close> keeps the ids of a well-formed forest unique and non-empty, for every destination.\<close>

theorem move_node_ids_ok:
  assumes ok: "ids_ok ns"
  shows "ids_ok (move_node ns d dest)"
  using ok by (rule move_node_keeps_ids_ok)

theorem move_node_ids_ok_witness:
  "ids_ok ex_forest \<and> ids_ok (move_node ex_forest ''C'' (DNode ''B'' Before))"
  using move_node_ids_ok [of ex_forest "''C''" "DNode ''B'' Before"] by (simp add: ids_ok_def)

text \<open>Claim C5 (functional). The moved subtree is unchanged: after a move to a valid destination, \<open>findNode\<close> returns for the dragged id exactly the subtree it returned before.\<close>

theorem move_node_keeps_subtree:
  assumes ok: "ids_ok ns" and dok: "dest_ok ns dest"
  shows "find_node (move_node ns d dest) d = find_node ns d"
  using ok
proof (cases rule: move_node_cases [where d = d and dest = dest])
  case unchanged
  then show ?thesis by simp
next
  case (moved n p k)
  have p: "case p of None \<Rightarrow> True | Some q \<Rightarrow> q \<in> set (forest_ids (prune_forest ns d))"
    using moved(3) dok by (auto simp: dest_ok_def split: option.splits)
  have "n \<in> set (forest_nodes (move_node ns d dest))"
    using insert_node_at_in [OF p] moved(2) by simp
  moreover have "nid n = d" using find_node_SomeD [OF moved(1)] by simp
  moreover have "ids_ok (move_node ns d dest)"
    using ids_ok_mset [OF move_node_moved_mset [OF ok moved(1) p] ok] moved(2) by simp
  ultimately show ?thesis
    using find_node_unique moved(1) by metis
qed

theorem move_node_keeps_subtree_witness:
  "ids_ok ex_forest \<and> dest_ok ex_forest (DList None) \<and>
   find_node (move_node ex_forest ''B'' (DList None)) ''B'' = Some (Node ''B'' ''B'' None None)"
  using move_node_keeps_subtree [of ex_forest "DList None" "''B''"]
  by (simp add: ids_ok_def dest_ok_def)

text \<open>Claim C6 (functional). \<open>removeNode\<close> on a present id detaches exactly the subtree \<open>findNode\<close> returns, reports it as \<open>removed\<close>, and the ids left are the original ones minus that subtree's.\<close>

theorem remove_node_removes_subtree:
  assumes "ids_ok ns" and "find_node ns i = Some n"
  shows "remove_node ns i = (prune_forest ns i, Some n) \<and>
         mset (forest_ids (prune_forest ns i)) + mset (node_ids n) = mset (forest_ids ns) \<and>
         i \<notin> set (forest_ids (prune_forest ns i))"
  using remove_node_found [OF assms] prune_forest_removes by blast

theorem remove_node_removes_subtree_witness:
  "ids_ok ex_forest \<and> find_node ex_forest ''B'' = Some (Node ''B'' ''B'' None None) \<and>
   remove_node ex_forest ''B'' =
     ([Node ''A'' ''A'' (Some [Node ''C'' ''C'' None None]) None], Some (Node ''B'' ''B'' None None))"
  using remove_node_removes_subtree [of ex_forest "''B''" "Node ''B'' ''B'' None None"]
  by (simp add: ids_ok_def)

text \<open>Claim C15 (error). Stale ids are no-ops: \<open>updateNode\<close>, \<open>removeNode\<close> and \<open>insertNodeAt\<close> addressed to an absent id return the forest unchanged (the structural-sharing no-op the controller relies on).\<close>

theorem absent_id_no_op:
  assumes "i \<notin> set (forest_ids ns)"
  shows "update_node ns i f = ns \<and> remove_node ns i = (ns, None) \<and> insert_node_at ns x (Some i) k = ns"
  using assms update_node_noop remove_node_noop insert_node_at_noop by blast

theorem absent_id_no_op_witness:
  "''Z'' \<notin> set (forest_ids ex_forest) \<and> remove_node ex_forest ''Z'' = (ex_forest, None)"
  using absent_id_no_op [of "''Z''" ex_forest] by simp

text \<open>Claim C17 (bounds). \<open>insertNodeAt\<close> clamps its index into \<open>[0, length]\<close>: at the root and under a parent, an index at or past the length appends the node and one at or below zero puts it first; under a parent the new child list is the old one with the node spliced in at the clamped index, and the parent's \<open>lazy\<close> becomes \<open>false\<close>.\<close>

theorem insert_node_at_clamps:
  assumes ok: "ids_ok (ns @ [x])" and pn: "find_node ns q = Some pn"
  shows "(int (length ns) \<le> k \<longrightarrow> insert_node_at ns x None k = ns @ [x]) \<and>
         (k \<le> 0 \<longrightarrow> insert_node_at ns x None k = x # ns) \<and>
         get_children (insert_node_at ns x (Some q) k) (Some q) =
           splice_in (clamp_index k (length (children_list pn))) x (children_list pn) \<and>
         (int (length (children_list pn)) \<le> k \<longrightarrow>
           get_children (insert_node_at ns x (Some q) k) (Some q) = children_list pn @ [x]) \<and>
         (k \<le> 0 \<longrightarrow> get_children (insert_node_at ns x (Some q) k) (Some q) = x # children_list pn) \<and>
         map_option lazy (find_node (insert_node_at ns x (Some q) k) q) = Some (Some False)"
  using insert_node_at_child [OF ok pn, of k]
  by (simp add: insert_node_at_root get_children_def insert_child_def)

theorem insert_node_at_clamps_witness:
  "ids_ok (ex_forest @ [Node ''D'' ''D'' None None]) \<and>
   find_node ex_forest ''A'' = Some (hd ex_forest) \<and>
   insert_node_at ex_forest (Node ''D'' ''D'' None None) None 7 = ex_forest @ [Node ''D'' ''D'' None None] \<and>
   get_children (insert_node_at ex_forest (Node ''D'' ''D'' None None) (Some ''A'') 9) (Some ''A'') =
     [Node ''B'' ''B'' None None, Node ''C'' ''C'' None None, Node ''D'' ''D'' None None]"
  using insert_node_at_clamps [of ex_forest "Node ''D'' ''D'' None None" "''A''" "hd ex_forest" 7]
    insert_node_at_clamps [of ex_forest "Node ''D'' ''D'' None None" "''A''" "hd ex_forest" 9]
  by (simp add: ids_ok_def)

text \<open>Claim C18 (functional). \<open>findParentInfo\<close> is complete and correct: every id of a well-formed forest is found, and the returned index points at that node in \<open>getChildren\<close> of the returned parent.\<close>

theorem find_parent_info_correct:
  assumes ok: "ids_ok ns" and i: "i \<in> set (forest_ids ns)"
  shows "\<exists>pp idx. find_parent_info ns i None = Some (pp, idx) \<and>
           idx < length (get_children ns pp) \<and> nid (get_children ns pp ! idx) = i"
proof -
  obtain pp idx where r: "find_parent_info ns i None = Some (pp, idx)"
    using i find_parent_None_iff(1) [of ns i None] by auto
  from find_parent_SomeD(1) [OF r]
  have "idx < length (get_children ns pp) \<and> nid (get_children ns pp ! idx) = i"
  proof
    assume "pp = None \<and> idx < length ns \<and> nid (ns ! idx) = i"
    then show ?thesis by (simp add: get_children_def)
  next
    assume "\<exists>m \<in> set (forest_nodes ns). pp = Some (nid m) \<and> idx < length (children_list m) \<and>
              nid (children_list m ! idx) = i"
    then obtain m where "m \<in> set (forest_nodes ns)" and "pp = Some (nid m)"
      and "idx < length (children_list m)" and "nid (children_list m ! idx) = i" by blast
    with find_node_unique [OF ok] show ?thesis by (simp add: get_children_def)
  qed
  with r show ?thesis by blast
qed

theorem find_parent_info_correct_witness:
  "ids_ok ex_forest \<and> ''C'' \<in> set (forest_ids ex_forest) \<and>
   find_parent_info ex_forest ''C'' None = Some (Some ''A'', 1)"
  using find_parent_info_correct [of ex_forest "''C''"] by (simp add: ids_ok_def)

text \<open>Claim C19 (equivalence). The \<open>for\<close> loop of \<open>removeNode\<close> (accumulators \<open>next\<close>, \<open>removed\<close>, \<open>changed\<close>) equals the reference definition: the forest with every node of the id pruned, and as \<open>removed\<close> the last match that is not below another one; \<open>removed\<close> is null exactly when the id is absent.\<close>

theorem remove_node_eq_reference:
  "remove_node ns i = (prune_forest ns i, last_match ns i) \<and>
   (last_match ns i = None \<longleftrightarrow> i \<notin> set (forest_ids ns))"
  unfolding remove_node_loop_eq(1) by (simp add: last_match_def top_matches_Nil_iff)

theorem remove_node_eq_reference_witness:
  "remove_node ex_forest ''B'' = (prune_forest ex_forest ''B'', last_match ex_forest ''B'') \<and>
   last_match ex_forest ''B'' = Some (Node ''B'' ''B'' None None)"
  using remove_node_eq_reference [of ex_forest "''B''"] by (simp add: last_match_def)

text \<open>Claim C20 (roundtrip). Remove and reinsert is the identity: with unique ids, removing a node and inserting the removed subtree under the parent and at the index \<open>findParentInfo\<close> gave restores the forest, provided the parent already has \<open>lazy = false\<close> (an insertion sets it).\<close>

lemma remove_reinsert_roundtrip:
  assumes ok: "ids_ok ns" and n: "find_node ns i = Some n"
    and pi: "find_parent_info ns i None = Some (p, k)"
    and loaded: "\<forall>q m. p = Some q \<longrightarrow> find_node ns q = Some m \<longrightarrow> lazy m = Some False"
  shows "remove_node ns i = (prune_forest ns i, Some n) \<and> insert_node_at (prune_forest ns i) n p (int k) = ns"
proof -
  have rm: "remove_node ns i = (prune_forest ns i, Some n)" by (rule remove_node_found(1) [OF ok n])
  have ni: "n \<in> set (forest_nodes ns)" "nid n = i" using find_node_SomeD [OF n] by auto
  from find_parent_SomeD(1) [OF pi]
  have "insert_node_at (prune_forest ns i) n p (int k) = ns"
  proof
    assume a: "p = None \<and> k < length ns \<and> nid (ns ! k) = i"
    then have "ns ! k \<in> set (forest_nodes ns)" by (auto intro: mem_forest_nodes)
    then have "find_node ns i = Some (ns ! k)" using find_node_unique [OF ok] a by force
    then have nk: "n = ns ! k" using n by simp
    have "prune_forest ns i = take k ns @ drop (Suc k) ns" using a by (intro prune_forest_nth [OF ok]) simp_all
    then show ?thesis using a nk splice_in_removed_nth [of k ns] by (simp add: insert_node_at_def)
  next
    assume "\<exists>m \<in> set (forest_nodes ns). p = Some (nid m) \<and> k < length (children_list m) \<and> nid (children_list m ! k) = i"
    then obtain m where m: "m \<in> set (forest_nodes ns)" and p: "p = Some (nid m)"
      and k: "k < length (children_list m)" and ki: "nid (children_list m ! k) = i" by blast
    let ?cs = "children_list m"
    have "set (forest_nodes ?cs) \<subseteq> set (forest_nodes ns)" by (rule forest_nodes_children_subset [OF m])
    then have "children_list m ! k \<in> set (forest_nodes ns)" using k by (meson nth_mem mem_forest_nodes subsetD)
    then have "find_node ns i = Some (children_list m ! k)" using find_node_unique [OF ok] ki by force
    then have nk: "n = ?cs ! k" using n by simp
    have lm: "lazy m = Some False" using loaded p find_node_unique [OF ok m] by simp
    have okc: "ids_ok ?cs" and mi: "nid m \<notin> set (forest_ids ?cs)"
      using ids_ok_node [OF ok m] by (auto simp: ids_ok_Cons)
    have pc: "prune_forest ?cs i = take k ?cs @ drop (Suc k) ?cs" by (rule prune_forest_nth [OF okc k ki])
    have ic: "i \<in> set (forest_ids ?cs)"
      using forest_nodes_mem_ids [OF mem_forest_nodes [OF nth_mem [OF k]]] ki by simp
    then have im: "nid m \<noteq> i" using mi by auto
    obtain cs where ch: "children m = Some cs" using k by (cases "children m") (auto simp: children_list_def)
    then have cs: "?cs = cs" by (simp add: children_list_def)
    have "prune_forest [m] i = [Node (nid m) (name m) (Some (take k cs @ drop (Suc k) cs)) (lazy m)]"
      using im ch pc cs by (cases m) simp
    moreover have "insert_child n (int k) (Node (nid m) (name m) (Some (take k cs @ drop (Suc k) cs)) (lazy m)) = m"
      using k nk cs ch lm splice_in_removed_nth [of k cs] by (cases m) (simp add: insert_child_def)
    ultimately have "update_node (prune_forest ns i) (nid m) (insert_child n (int k)) = ns"
      using update_prune_restores [OF ok m ic] by blast
    then show ?thesis using p by (simp add: insert_node_at_def)
  qed
  with rm show ?thesis by simp
qed

theorem remove_reinsert_roundtrip_witness:
  "insert_node_at (prune_forest [Node ''A'' ''A'' (Some [Node ''B'' ''B'' None None, Node ''C'' ''C'' None None]) (Some False)] ''C'')
     (Node ''C'' ''C'' None None) (Some ''A'') 1 =
   [Node ''A'' ''A'' (Some [Node ''B'' ''B'' None None, Node ''C'' ''C'' None None]) (Some False)]"
  using remove_reinsert_roundtrip [of "[Node ''A'' ''A'' (Some [Node ''B'' ''B'' None None, Node ''C'' ''C'' None None]) (Some False)]"
    "''C''" "Node ''C'' ''C'' None None" "Some ''A''" 1]
  by (simp add: ids_ok_def)

text \<open>Claim C21 (error). Lost subtree: a list destination naming a parent that is not in the forest (for instance one deleted while the drag was in progress) passes the cycle guard, and the insertion under the missing parent does nothing, so \<open>moveNode\<close> returns the forest without the dragged subtree.\<close>

theorem move_node_lost_subtree:
  assumes ok: "ids_ok ns" and d: "d \<in> set (forest_ids ns)" and q: "q \<notin> set (forest_ids ns)"
  shows "move_node ns d (DList (Some q)) = prune_forest ns d
         \<and> d \<notin> set (forest_ids (move_node ns d (DList (Some q))))"
proof -
  obtain n where n: "find_node ns d = Some n"
    using d by (cases "find_node ns d") (simp_all add: find_node_None_iff)
  note tw = remove_parts [OF ok n]
  have rm: "remove_node ns d = (prune_forest ns d, Some n)" by (rule remove_node_found(1) [OF ok n])
  have "\<not> contains_node n q" using q tw(2) by (auto simp: contains_node_iff)
  moreover have "q \<notin> set (forest_ids (prune_forest ns d))" using q tw(2) by blast
  ultimately have "move_node ns d (DList (Some q)) = prune_forest ns d"
    using rm by (simp add: move_node_def insert_node_at_noop)
  then show ?thesis by (simp add: prune_forest_removes)
qed

theorem move_node_lost_subtree_witness:
  "ids_ok ex_forest \<and> ''B'' \<in> set (forest_ids ex_forest) \<and> ''Z'' \<notin> set (forest_ids ex_forest) \<and>
   move_node ex_forest ''B'' (DList (Some ''Z'')) = [Node ''A'' ''A'' (Some [Node ''C'' ''C'' None None]) None]"
  using move_node_lost_subtree [of ex_forest "''B''" "''Z''"]
  by (simp add: ids_ok_def)

text \<open>Claim C22 (termination). \<open>updateNode\<close> returns within a bounded call stack: with room for \<open>d\<close> nested calls it returns, with the result of the unbounded model, on every forest of depth at most \<open>d + 1\<close>; for an id not in the forest, which makes it visit every node, it throws (exhausts the stack) exactly when the forest is deeper.\<close>

theorem update_node_stack_bound:
  "(forest_depth ns \<le> Suc d \<longrightarrow> update_node_st d ns i f = Some (update_node ns i f)) \<and>
   (i \<notin> set (forest_ids ns) \<longrightarrow> (update_node_st d ns i f = None \<longleftrightarrow> Suc d < forest_depth ns))"
  using update_node_st_enough(1) update_node_st_absent(1) by blast

theorem update_node_stack_bound_witness:
  "forest_depth ex_forest \<le> Suc 1 \<and>
   update_node_st 1 ex_forest ''C'' (\<lambda>n. Node (nid n) ''Z'' (children n) (lazy n)) = Some (update_node ex_forest ''C'' (\<lambda>n. Node (nid n) ''Z'' (children n) (lazy n))) \<and>
   ''X'' \<notin> set (forest_ids ex_forest) \<and> update_node_st 0 ex_forest ''X'' id = None"
  using update_node_stack_bound [of ex_forest 1 "''C''" "\<lambda>n. Node (nid n) ''Z'' (children n) (lazy n)"]
    update_node_stack_bound [of ex_forest 0 "''X''" id]
  by simp

text \<open>Claim C23 (invariant). \<open>moveNode\<close> keeps the lazy invariant: a node marked \<open>lazy\<close> has no children yet (the target parent of an insertion becomes \<open>lazy = false\<close>).\<close>

theorem move_node_lazy_ok:
  assumes ok: "ids_ok ns" and lz: "lazy_ok ns"
  shows "lazy_ok (move_node ns d dest)"
  using ok lz by (rule move_node_keeps_lazy_ok)

theorem move_node_lazy_ok_witness:
  "ids_ok ex_forest \<and> lazy_ok ex_forest \<and> lazy_ok (move_node ex_forest ''B'' (DNode ''C'' Inside))"
  using move_node_lazy_ok [of ex_forest "''B''" "DNode ''C'' Inside"] by (simp add: ids_ok_def)

end
