(* ===== verification/Tree_View.thy ===== *)
theory Tree_View
  imports Complex_Main Tree_Utils
begin

text \<open>
  The controller \<open>src/TreeViewComponent/src/components/TreeView/TreeView.tsx\<close> and
  its controlled owner \<open>src/TreeViewComponent/src/App.tsx\<close>.

  The component's \<open>useState\<close> hooks are the fields of the record \<open>tv_state\<close>;
  each handler is a function from the state (and the handler's arguments) to the next
  state.  React applies a handler's state updates before the next event is handled,
  and \<open>nodesRef.current\<close> is the forest of the last render; the model handles one
  event at a time and reads the current forest \<open>tv_nodes\<close> (the synchronous
  reflection the spec assumes, section 5).

  \<open>toggleExpand\<close> is asynchronous.  Its part up to \<open>await loader(id)\<close> is the
  handler \<open>toggle_expand\<close>, which records the call in \<open>pending_loads\<close> (the
  continuations waiting for the loader); the rest runs later as \<open>load_resolved\<close>
  (the promise fulfils with the children) or \<open>load_failed\<close> (it rejects; only the
  \<open>finally\<close> clause runs).  Which of these happens, and when, is chosen by the
  environment: the event datatype \<open>tv_event\<close> lists every handler and both
  completions, \<open>tv_step\<close> dispatches one event, and \<open>tv_reach\<close> is the set of
  states reachable by any interleaving of admissible events.

  Inputs from outside the component are event arguments: the ids returned by
  \<open>createId\<close>, the answer of \<open>window.confirm\<close>, the loader's children, the drag
  data and the pointer geometry.
\<close>

section \<open>State\<close>

record tv_state =
  tv_value :: "node list option"      \<comment> \<open>prop \<open>value\<close>; \<open>None\<close>: uncontrolled\<close>
  tv_internal :: "node list"          \<comment> \<open>\<open>internal\<close> (line 17)\<close>
  expanded :: "node_id set"
  loading :: "node_id set"
  editing_id :: "node_id option"
  edit_draft :: string
  adding_child_to_id :: "node_id option"
  child_draft :: string
  is_adding_root :: bool
  root_draft :: string
  dragging_id :: "node_id option"
  drop_hint :: "(node_id \<times> drop_position) option"
  active_list_drop :: "node_id option"
  pending_loads :: "node_id list"     \<comment> \<open>loader calls awaiting their promise\<close>

text \<open>\<open>useState\<close> initial values (lines 17 and 33--44).\<close>

definition tv_init :: "node list option \<Rightarrow> node list option \<Rightarrow> tv_state" where
  "tv_init value default_value =
     \<lparr>tv_value = value, tv_internal = (case default_value of None \<Rightarrow> [] | Some d \<Rightarrow> d),
      expanded = {}, loading = {}, editing_id = None, edit_draft = [],
      adding_child_to_id = None, child_draft = [], is_adding_root = False, root_draft = [],
      dragging_id = None, drop_hint = None, active_list_drop = None, pending_loads = []\<rparr>"

text \<open>\<open>const nodes = value ?? internal\<close> (line 18).\<close>

definition tv_nodes :: "tv_state \<Rightarrow> node list" where
  "tv_nodes s = (case tv_value s of Some v \<Rightarrow> v | None \<Rightarrow> tv_internal s)"

text \<open>\<open>App.tsx\<close>: the controlled owner passes its state as \<open>value\<close> and its setter
  as \<open>onChange\<close>, so a proposed forest comes back as the next \<open>value\<close>.\<close>

definition app_on_change :: "node list \<Rightarrow> tv_state \<Rightarrow> tv_state" where
  "app_on_change next s = s\<lparr>tv_value := Some next\<rparr>"

text \<open>\<open>setNodes\<close> (lines 25--31): uncontrolled, the component stores the forest;
  controlled, only \<open>onChange\<close> is called, and the owner (\<open>App\<close>) stores it.\<close>

definition set_nodes :: "node list \<Rightarrow> tv_state \<Rightarrow> tv_state" where
  "set_nodes next s = (case tv_value s of None \<Rightarrow> s\<lparr>tv_internal := next\<rparr> | Some _ \<Rightarrow> app_on_change next s)"

section \<open>Node updaters passed to \<open>updateNode\<close>\<close>

text \<open>\<open>(n) => ({ ...n, name: nextName })\<close> (line 56).\<close>

definition set_name :: "string \<Rightarrow> node \<Rightarrow> node" where
  "set_name nm n = Node (nid n) nm (children n) (lazy n)"

text \<open>\<open>(n) => ({ ...n, lazy: false, children: loadedChildren })\<close> (lines 100--104).\<close>

definition mark_loaded :: "node list \<Rightarrow> node \<Rightarrow> node" where
  "mark_loaded cs n = Node (nid n) (name n) (Some cs) (Some False)"

text \<open>\<open>(p) => ({ ...p, lazy: false, children: [...(p.children ?? []), child] })\<close>
  (lines 137--141).\<close>

definition append_child :: "node \<Rightarrow> node \<Rightarrow> node" where
  "append_child c p = Node (nid p) (name p) (Some (children_list p @ [c])) (Some False)"

section \<open>Handlers\<close>

text \<open>\<open>commitEdit\<close> (lines 49--58).\<close>

definition commit_edit :: "tv_state \<Rightarrow> tv_state" where
  "commit_edit s =
     (case editing_id s of
        None \<Rightarrow> s
      | Some e \<Rightarrow>
          (if e = [] then s
           else let next_name = trim (edit_draft s) in
             if next_name = [] then s\<lparr>editing_id := None\<rparr>
             else (set_nodes (update_node (tv_nodes s) e (set_name next_name)) s)\<lparr>editing_id := None\<rparr>))"

text \<open>\<open>cancelEdit\<close> (lines 60--62).\<close>

definition cancel_edit :: "tv_state \<Rightarrow> tv_state" where
  "cancel_edit s = s\<lparr>editing_id := None\<rparr>"

text \<open>\<open>startEdit\<close> (lines 64--72).\<close>

definition start_edit :: "node_id \<Rightarrow> tv_state \<Rightarrow> tv_state" where
  "start_edit i s =
     (case find_node (tv_nodes s) i of
        None \<Rightarrow> s
      | Some n \<Rightarrow> s\<lparr>editing_id := Some i, edit_draft := name n\<rparr>)"

text \<open>\<open>onChangeEditDraft={setEditDraft}\<close> (line 283).\<close>

definition change_edit_draft :: "string \<Rightarrow> tv_state \<Rightarrow> tv_state" where
  "change_edit_draft d s = s\<lparr>edit_draft := d\<rparr>"

text \<open>\<open>ensureExpanded\<close> (lines 74--76).\<close>

definition ensure_expanded :: "node_id \<Rightarrow> tv_state \<Rightarrow> tv_state" where
  "ensure_expanded i s = s\<lparr>expanded := insert i (expanded s)\<rparr>"

text \<open>\<open>toggleExpand\<close> up to \<open>await\<close> (lines 78--98): collapse, or expand and, for a
  lazy node whose children are \<open>undefined\<close>, mark it loading and call the loader.\<close>

definition toggle_expand :: "node_id \<Rightarrow> tv_state \<Rightarrow> tv_state" where
  "toggle_expand i s =
     (if i \<in> expanded s then s\<lparr>expanded := expanded s - {i}\<rparr>
      else
        let s1 = s\<lparr>expanded := insert i (expanded s)\<rparr> in
        case find_node (tv_nodes s1) i of
          None \<Rightarrow> s1
        | Some n \<Rightarrow>
            (if lazy n \<noteq> Some True \<or> children n \<noteq> None then s1
             else s1\<lparr>loading := insert i (loading s1), pending_loads := pending_loads s1 @ [i]\<rparr>))"

text \<open>\<open>toggleExpand\<close> after \<open>await\<close>, the loader having fulfilled with \<open>cs\<close>
  (lines 99--111): the update addressed to the id, then the \<open>finally\<close> clause.\<close>

definition load_resolved :: "node_id \<Rightarrow> node list \<Rightarrow> tv_state \<Rightarrow> tv_state" where
  "load_resolved i cs s =
     (let s1 = set_nodes (update_node (tv_nodes s) i (mark_loaded cs)) s in
      s1\<lparr>loading := loading s1 - {i}, pending_loads := remove1 i (pending_loads s1)\<rparr>)"

text \<open>\<open>toggleExpand\<close> after a rejected loader promise: only \<open>finally\<close> runs
  (lines 106--111).\<close>

definition load_failed :: "node_id \<Rightarrow> tv_state \<Rightarrow> tv_state" where
  "load_failed i s = s\<lparr>loading := loading s - {i}, pending_loads := remove1 i (pending_loads s)\<rparr>"

text \<open>\<open>beginAddChild\<close> (lines 117--125).\<close>

definition begin_add_child :: "node_id \<Rightarrow> tv_state \<Rightarrow> tv_state" where
  "begin_add_child p s =
     ensure_expanded p (s\<lparr>is_adding_root := False, adding_child_to_id := Some p, child_draft := []\<rparr>)"

text \<open>The add-child input's \<open>onChange\<close> (line 245).\<close>

definition change_child_draft :: "string \<Rightarrow> tv_state \<Rightarrow> tv_state" where
  "change_child_draft d s = s\<lparr>child_draft := d\<rparr>"

text \<open>\<open>commitAddChild\<close> (lines 127--144); \<open>fresh\<close> is the value of \<open>createId()\<close>.\<close>

definition commit_add_child :: "node_id \<Rightarrow> tv_state \<Rightarrow> tv_state" where
  "commit_add_child fresh s =
     (case adding_child_to_id s of
        None \<Rightarrow> s
      | Some p \<Rightarrow>
          (if p = [] then s
           else let nm = trim (child_draft s) in
             if nm = [] then s\<lparr>adding_child_to_id := None\<rparr>
             else (set_nodes (update_node (tv_nodes s) p (append_child (Node fresh nm None None))) s)
                    \<lparr>adding_child_to_id := None\<rparr>))"

text \<open>\<open>cancelAddChild\<close> (lines 146--148).\<close>

definition cancel_add_child :: "tv_state \<Rightarrow> tv_state" where
  "cancel_add_child s = s\<lparr>adding_child_to_id := None\<rparr>"

text \<open>\<open>remove\<close> (lines 150--168); \<open>confirmed\<close> is the answer of
  \<open>window.confirm\<close>.\<close>

definition remove_req :: "node_id \<Rightarrow> bool \<Rightarrow> tv_state \<Rightarrow> tv_state" where
  "remove_req i confirmed s =
     (if \<not> confirmed then s
      else
        let res = remove_node (tv_nodes s) i;
            s1 = (if snd res \<noteq> None then set_nodes (fst res) s else s)
        in s1\<lparr>editing_id := (if editing_id s1 = Some i then None else editing_id s1),
              adding_child_to_id := (if adding_child_to_id s1 = Some i then None else adding_child_to_id s1),
              expanded := expanded s1 - {i}\<rparr>)"

text \<open>\<open>computeDropPosition\<close> (lines 170--177): the pointer's offset in the row,
  against thirds of the row's height.\<close>

definition compute_drop_position :: "real \<Rightarrow> real \<Rightarrow> real \<Rightarrow> drop_position" where
  "compute_drop_position client_y row_top row_height =
     (let y = client_y - row_top; third = row_height / 3 in
      if y < third then Before else if y > 2 * third then After else Inside)"

text \<open>\<open>readDraggedId\<close> (lines 179--182): the two \<open>dataTransfer\<close> entries (the empty
  string when absent), then \<open>draggingId\<close>.\<close>

definition read_dragged_id :: "string \<Rightarrow> string \<Rightarrow> tv_state \<Rightarrow> node_id option" where
  "read_dragged_id dt_node dt_text s =
     (let dt = (if dt_node \<noteq> [] then dt_node else dt_text) in
      if dt \<noteq> [] then Some dt else dragging_id s)"

text \<open>\<open>applyMove\<close> (lines 184--190).\<close>

definition apply_move :: "node_id \<Rightarrow> drop_destination \<Rightarrow> tv_state \<Rightarrow> tv_state" where
  "apply_move dragged dest s =
     (if dragged = [] then s else set_nodes (move_node (tv_nodes s) dragged dest) s)"

text \<open>\<open>onDropOnNode\<close> (lines 192--207).\<close>

definition drop_on_node ::
  "node_id \<Rightarrow> string \<Rightarrow> string \<Rightarrow> real \<Rightarrow> real \<Rightarrow> real \<Rightarrow> tv_state \<Rightarrow> tv_state" where
  "drop_on_node target dt_node dt_text client_y row_top row_height s =
     (case read_dragged_id dt_node dt_text s of
        None \<Rightarrow> s
      | Some d \<Rightarrow>
          (if d = [] \<or> d = target then s
           else (apply_move d (DNode target (compute_drop_position client_y row_top row_height)) s)
                  \<lparr>drop_hint := None, active_list_drop := None, dragging_id := None\<rparr>))"

text \<open>\<open>onDropOnList\<close> (lines 209--223).\<close>

definition drop_on_list :: "node_id option \<Rightarrow> string \<Rightarrow> string \<Rightarrow> tv_state \<Rightarrow> tv_state" where
  "drop_on_list parent dt_node dt_text s =
     (case read_dragged_id dt_node dt_text s of
        None \<Rightarrow> s
      | Some d \<Rightarrow>
          (if d = [] then s
           else (apply_move d (DList parent) s)
                  \<lparr>drop_hint := None, active_list_drop := None, dragging_id := None\<rparr>))"

text \<open>The list's \<open>onDragOver\<close> and \<open>onDragLeave\<close> (lines 230--235).\<close>

definition list_drag_over :: "node_id option \<Rightarrow> tv_state \<Rightarrow> tv_state" where
  "list_drag_over parent s = s\<lparr>active_list_drop := parent, drop_hint := None\<rparr>"

definition list_drag_leave :: "node_id option \<Rightarrow> tv_state \<Rightarrow> tv_state" where
  "list_drag_leave parent s =
     s\<lparr>active_list_drop := (if active_list_drop s = parent then None else active_list_drop s)\<rparr>"

text \<open>A row's \<open>onDragStart\<close>, \<open>onDragEnd\<close> and \<open>onDragOver\<close> (lines 288--304).
  \<open>setData\<close> hands the id to the browser, which returns it to the drop handler as
  \<open>dt_node\<close>.\<close>

definition drag_start :: "node_id \<Rightarrow> tv_state \<Rightarrow> tv_state" where
  "drag_start i s = s\<lparr>dragging_id := Some i\<rparr>"

definition drag_end :: "tv_state \<Rightarrow> tv_state" where
  "drag_end s = s\<lparr>dragging_id := None, drop_hint := None, active_list_drop := None\<rparr>"

definition row_drag_over :: "node_id \<Rightarrow> real \<Rightarrow> real \<Rightarrow> real \<Rightarrow> tv_state \<Rightarrow> tv_state" where
  "row_drag_over i client_y row_top row_height s =
     (if dragging_id s = Some i then s
      else s\<lparr>drop_hint := Some (i, compute_drop_position client_y row_top row_height),
             active_list_drop := None\<rparr>)"

text \<open>The toolbar's \<open>Add root\<close> button (lines 358--363), the root input's
  \<open>onChange\<close> (line 376), its Enter key and \<open>Add\<close> button (lines 378--384 and
  394--400, the same code) and its Escape key (lines 385--388).\<close>

definition toggle_add_root :: "tv_state \<Rightarrow> tv_state" where
  "toggle_add_root s =
     s\<lparr>adding_child_to_id := None, child_draft := [], is_adding_root := \<not> is_adding_root s,
       root_draft := []\<rparr>"

definition change_root_draft :: "string \<Rightarrow> tv_state \<Rightarrow> tv_state" where
  "change_root_draft d s = s\<lparr>root_draft := d\<rparr>"

definition commit_add_root :: "node_id \<Rightarrow> tv_state \<Rightarrow> tv_state" where
  "commit_add_root fresh s =
     (let nm = trim (root_draft s) in
      if nm = [] then s
      else (set_nodes (tv_nodes s @ [Node fresh nm None None]) s)
             \<lparr>root_draft := [], is_adding_root := False\<rparr>)"

definition cancel_add_root :: "tv_state \<Rightarrow> tv_state" where
  "cancel_add_root s = s\<lparr>root_draft := [], is_adding_root := False\<rparr>"

section \<open>Events and the step function\<close>

text \<open>Every handler the component installs, and the two ways a pending loader call
  completes.  Event arguments are what the browser or the environment supplies.\<close>

datatype tv_event =
    ToggleExpand node_id
  | LoadResolved node_id "node list"
  | LoadFailed node_id
  | StartEdit node_id
  | ChangeEditDraft string
  | CommitEdit
  | CancelEdit
  | BeginAddChild node_id
  | ChangeChildDraft string
  | CommitAddChild node_id
  | CancelAddChild
  | Remove node_id bool
  | DragStart node_id
  | DragEnd
  | RowDragOver node_id real real real
  | ListDragOver "node_id option"
  | ListDragLeave "node_id option"
  | DropOnNode node_id string string real real real
  | DropOnList "node_id option" string string
  | ToggleAddRoot
  | ChangeRootDraft string
  | CommitAddRoot node_id
  | CancelAddRoot

text \<open>A completion is handled only while its loader call is pending: each call
  of the loader has exactly one continuation.\<close>

fun tv_step :: "tv_state \<Rightarrow> tv_event \<Rightarrow> tv_state" where
  "tv_step s (ToggleExpand i) = toggle_expand i s"
| "tv_step s (LoadResolved i cs) = (if i \<in> set (pending_loads s) then load_resolved i cs s else s)"
| "tv_step s (LoadFailed i) = (if i \<in> set (pending_loads s) then load_failed i s else s)"
| "tv_step s (StartEdit i) = start_edit i s"
| "tv_step s (ChangeEditDraft d) = change_edit_draft d s"
| "tv_step s CommitEdit = commit_edit s"
| "tv_step s CancelEdit = cancel_edit s"
| "tv_step s (BeginAddChild p) = begin_add_child p s"
| "tv_step s (ChangeChildDraft d) = change_child_draft d s"
| "tv_step s (CommitAddChild fresh) = commit_add_child fresh s"
| "tv_step s CancelAddChild = cancel_add_child s"
| "tv_step s (Remove i ok) = remove_req i ok s"
| "tv_step s (DragStart i) = drag_start i s"
| "tv_step s DragEnd = drag_end s"
| "tv_step s (RowDragOver i y t h) = row_drag_over i y t h s"
| "tv_step s (ListDragOver p) = list_drag_over p s"
| "tv_step s (ListDragLeave p) = list_drag_leave p s"
| "tv_step s (DropOnNode i a b y t h) = drop_on_node i a b y t h s"
| "tv_step s (DropOnList p a b) = drop_on_list p a b s"
| "tv_step s ToggleAddRoot = toggle_add_root s"
| "tv_step s (ChangeRootDraft d) = change_root_draft d s"
| "tv_step s (CommitAddRoot fresh) = commit_add_root fresh s"
| "tv_step s CancelAddRoot = cancel_add_root s"

text \<open>A sequence of events, handled in order.\<close>

definition tv_run :: "tv_state \<Rightarrow> tv_event list \<Rightarrow> tv_state" where
  "tv_run s es = fold (\<lambda>e s. tv_step s e) es s"

text \<open>What the environment guarantees: \<open>createId\<close> yields a non-empty id not in
  the forest, and the loader (\<open>mockLoadChildren\<close> in this repository) yields a
  well-formed forest with fresh ids.\<close>

fun env_ok :: "tv_state \<Rightarrow> tv_event \<Rightarrow> bool" where
  "env_ok s (CommitAddChild fresh) \<longleftrightarrow> fresh \<noteq> [] \<and> fresh \<notin> set (forest_ids (tv_nodes s))"
| "env_ok s (CommitAddRoot fresh) \<longleftrightarrow> fresh \<noteq> [] \<and> fresh \<notin> set (forest_ids (tv_nodes s))"
| "env_ok s (LoadResolved i cs) \<longleftrightarrow>
     ids_ok cs \<and> lazy_ok cs \<and> set (forest_ids cs) \<inter> set (forest_ids (tv_nodes s)) = {}"
| "env_ok s e \<longleftrightarrow> True"

text \<open>A sequence of events each admissible in the state it is handled in.\<close>

fun tv_admissible :: "tv_state \<Rightarrow> tv_event list \<Rightarrow> bool" where
  "tv_admissible s [] = True"
| "tv_admissible s (e # es) = (env_ok s e \<and> tv_admissible (tv_step s e) es)"

text \<open>States reachable from \<open>s0\<close> by admissible events.\<close>

inductive tv_reach :: "tv_state \<Rightarrow> tv_state \<Rightarrow> bool" where
  tv_reach_refl: "tv_reach s0 s0"
| tv_reach_step: "tv_reach s0 s \<Longrightarrow> env_ok s e \<Longrightarrow> tv_reach s0 (tv_step s e)"

text \<open>The controller's invariant: the displayed forest is well formed, and every id
  shown as loading has a loader call in flight (so its spinner will stop).\<close>

definition tv_inv :: "tv_state \<Rightarrow> bool" where
  "tv_inv s \<longleftrightarrow> ids_ok (tv_nodes s) \<and> lazy_ok (tv_nodes s) \<and> loading s \<subseteq> set (pending_loads s)"

text \<open>The ownership abstraction: the same component state with the forest held
  internally (uncontrolled mode).  A controlled component and its owner correspond to
  an uncontrolled component holding the owner's value.\<close>

definition ui_view :: "tv_state \<Rightarrow> tv_state" where
  "ui_view s = s\<lparr>tv_value := None, tv_internal := tv_nodes s\<rparr>"

text \<open>Example states: \<open>App\<close> (controlled mode) over one lazy root \<open>A\<close>, the
  scenario of spec section 8, and over a root \<open>A\<close> with one child \<open>B\<close>.\<close>

abbreviation ex_lazy_tv :: tv_state where
  "ex_lazy_tv \<equiv> tv_init (Some [Node ''A'' ''A'' None (Some True)]) None"

abbreviation ex_nested_tv :: tv_state where
  "ex_nested_tv \<equiv> tv_init (Some ex_nested) None"

text \<open>Ids of the nodes whose children are not known yet (\<open>children\<close> unset):
  the nodes a later expansion may still load.\<close>

definition unloaded_ids :: "node list \<Rightarrow> node_id set" where
  "unloaded_ids ns = set (map nid (filter (\<lambda>m. children m = None) (forest_nodes ns)))"

text \<open>Ids an event brings into the forest: the loader's children and the results of
  \<open>createId\<close>.\<close>

fun new_ids :: "tv_event \<Rightarrow> node_id set" where
  "new_ids (LoadResolved i cs) = set (forest_ids cs)"
| "new_ids (CommitAddChild fresh) = {fresh}"
| "new_ids (CommitAddRoot fresh) = {fresh}"
| "new_ids e = {}"

section \<open>Lemmas\<close>

text \<open>The handlers' definitions, for evaluating concrete runs.\<close>

lemmas tv_handler_defs = tv_init_def tv_nodes_def set_nodes_def app_on_change_def set_name_def
  mark_loaded_def append_child_def commit_edit_def cancel_edit_def start_edit_def
  change_edit_draft_def ensure_expanded_def toggle_expand_def load_resolved_def load_failed_def
  begin_add_child_def change_child_draft_def commit_add_child_def cancel_add_child_def
  remove_req_def compute_drop_position_def read_dragged_id_def apply_move_def drop_on_node_def
  drop_on_list_def list_drag_over_def list_drag_leave_def drag_start_def drag_end_def
  row_drag_over_def toggle_add_root_def change_root_draft_def commit_add_root_def
  cancel_add_root_def Let_def

subsection \<open>The displayed forest\<close>

named_theorems tv_simps "how the handlers act on the displayed forest"

lemma tv_nodes_upd [simp, tv_simps]:
  "tv_nodes (s\<lparr>expanded := a\<rparr>) = tv_nodes s"
  "tv_nodes (s\<lparr>loading := b\<rparr>) = tv_nodes s"
  "tv_nodes (s\<lparr>editing_id := c\<rparr>) = tv_nodes s"
  "tv_nodes (s\<lparr>edit_draft := d\<rparr>) = tv_nodes s"
  "tv_nodes (s\<lparr>adding_child_to_id := e\<rparr>) = tv_nodes s"
  "tv_nodes (s\<lparr>child_draft := f\<rparr>) = tv_nodes s"
  "tv_nodes (s\<lparr>is_adding_root := g\<rparr>) = tv_nodes s"
  "tv_nodes (s\<lparr>root_draft := h\<rparr>) = tv_nodes s"
  "tv_nodes (s\<lparr>dragging_id := i\<rparr>) = tv_nodes s"
  "tv_nodes (s\<lparr>drop_hint := j\<rparr>) = tv_nodes s"
  "tv_nodes (s\<lparr>active_list_drop := k\<rparr>) = tv_nodes s"
  "tv_nodes (s\<lparr>pending_loads := l\<rparr>) = tv_nodes s"
  by (simp_all add: tv_nodes_def split: option.split)

lemma set_nodes_simps [simp, tv_simps]:
  "tv_nodes (set_nodes ns s) = ns"
  "expanded (set_nodes ns s) = expanded s"
  "loading (set_nodes ns s) = loading s"
  "editing_id (set_nodes ns s) = editing_id s"
  "edit_draft (set_nodes ns s) = edit_draft s"
  "adding_child_to_id (set_nodes ns s) = adding_child_to_id s"
  "child_draft (set_nodes ns s) = child_draft s"
  "is_adding_root (set_nodes ns s) = is_adding_root s"
  "root_draft (set_nodes ns s) = root_draft s"
  "dragging_id (set_nodes ns s) = dragging_id s"
  "drop_hint (set_nodes ns s) = drop_hint s"
  "active_list_drop (set_nodes ns s) = active_list_drop s"
  "pending_loads (set_nodes ns s) = pending_loads s"
  by (simp_all add: set_nodes_def app_on_change_def tv_nodes_def split: option.split)

text \<open>A node update whose new subtree takes its ids from the old subtree and from a
  forest \<open>ys\<close> disjoint from the rest keeps ids unique.\<close>

lemma update_node_ids_ok:
  assumes ok: "ids_ok (ns @ ys)" and n: "find_node ns i = Some n"
    and sub: "mset (node_ids (f n)) \<subseteq># mset (node_ids n) + mset (forest_ids ys)"
  shows "ids_ok (update_node ns i f)"
proof -
  have okn: "ids_ok ns" using ok by (simp add: ids_ok_append)
  have "mset (forest_ids (update_node ns i f)) + mset (node_ids n) =
        mset (forest_ids ns) + mset (node_ids (f n))"
    by (rule update_node_mset [OF okn n])
  also have "\<dots> \<subseteq># mset (forest_ids ns) + (mset (node_ids n) + mset (forest_ids ys))"
    using sub by (rule subset_mset.add_left_mono)
  finally have "mset (forest_ids (update_node ns i f)) \<subseteq># mset (forest_ids (ns @ ys))"
    by (simp add: add.commute add.left_commute)
  then show ?thesis using ok by (rule ids_ok_subset_mset)
qed

lemma updater_simps [simp]:
  "nid (set_name nm n) = nid n" "children_list (set_name nm n) = children_list n"
  "nid (mark_loaded cs n) = nid n" "children_list (mark_loaded cs n) = cs"
  "nid (append_child c n) = nid n" "children_list (append_child c n) = children_list n @ [c]"
  "lazy (set_name nm n) = lazy n" "children (set_name nm n) = children n"
  "lazy (mark_loaded cs n) = Some False" "lazy (append_child c n) = Some False"
  "children (mark_loaded cs n) = Some cs" "children (append_child c n) = Some (children_list n @ [c])"
  by (simp_all add: set_name_def mark_loaded_def append_child_def children_list_def)

lemma ids_ok_append_leaf:
  "ids_ok ns \<Longrightarrow> fresh \<noteq> [] \<Longrightarrow> fresh \<notin> set (forest_ids ns) \<Longrightarrow>
   ids_ok (ns @ [Node fresh nm None lz])"
  by (auto simp: ids_ok_append ids_ok_Cons)

lemma find_node_ok:
  "ids_ok ns \<Longrightarrow> find_node ns i = Some n \<Longrightarrow> i \<noteq> [] \<and> nid n = i"
  using find_node_SomeD [of ns i n] forest_nodes_mem_ids [of n ns] unfolding ids_ok_def by metis


lemma remove_node_cases:
  assumes ok: "ids_ok ns"
  obtains (absent) "i \<notin> set (forest_ids ns)" and "remove_node ns i = (ns, None)"
    | (found) n where "find_node ns i = Some n" and "remove_node ns i = (prune_forest ns i, Some n)"
proof (cases "find_node ns i")
  case None
  then have "i \<notin> set (forest_ids ns)" by (simp add: find_node_None_iff)
  then show ?thesis using absent remove_node_noop by blast
next
  case (Some n)
  then show ?thesis using found remove_node_found(1) [OF ok Some] by blast
qed

lemma remove_node_ok:
  assumes "ids_ok ns" and "lazy_ok ns"
  shows "ids_ok (fst (remove_node ns i)) \<and> lazy_ok (fst (remove_node ns i))"
  using assms(1)
proof (cases rule: remove_node_cases [where i = i])
  case (found n)
  then show ?thesis using assms remove_parts(1) [OF assms(1) found(1)] by (simp add: prune_forest_lazy_ok)
qed (use assms in simp)

lemma subset_remove1:
  assumes "A \<subseteq> set xs"
  shows "A - {x} \<subseteq> set (remove1 x xs)"
proof
  fix y
  assume "y \<in> A - {x}"
  then have "y \<noteq> x" and "y \<in> set xs" using assms by auto
  then show "y \<in> set (remove1 x xs)" by (simp add: in_set_remove1)
qed

subsection \<open>Each handler keeps the invariant\<close>

lemma tv_inv_set_nodes [intro]:
  "tv_inv s \<Longrightarrow> ids_ok ns \<Longrightarrow> lazy_ok ns \<Longrightarrow> tv_inv (set_nodes ns s)"
  by (simp add: tv_inv_def)

lemma tv_inv_upd [simp]:
  "tv_inv (s\<lparr>expanded := a\<rparr>) = tv_inv s"
  "tv_inv (s\<lparr>editing_id := c\<rparr>) = tv_inv s"
  "tv_inv (s\<lparr>edit_draft := d\<rparr>) = tv_inv s"
  "tv_inv (s\<lparr>adding_child_to_id := e\<rparr>) = tv_inv s"
  "tv_inv (s\<lparr>child_draft := f\<rparr>) = tv_inv s"
  "tv_inv (s\<lparr>is_adding_root := g\<rparr>) = tv_inv s"
  "tv_inv (s\<lparr>root_draft := h\<rparr>) = tv_inv s"
  "tv_inv (s\<lparr>dragging_id := i\<rparr>) = tv_inv s"
  "tv_inv (s\<lparr>drop_hint := j\<rparr>) = tv_inv s"
  "tv_inv (s\<lparr>active_list_drop := k\<rparr>) = tv_inv s"
  by (simp_all add: tv_inv_def)

lemma tv_inv_toggle_expand: "tv_inv s \<Longrightarrow> tv_inv (toggle_expand i s)"
  by (auto simp: toggle_expand_def tv_inv_def Let_def split: option.split)

lemma tv_inv_load_failed: "tv_inv s \<Longrightarrow> tv_inv (load_failed i s)"
  by (simp add: load_failed_def tv_inv_def subset_remove1)

lemma tv_inv_load_resolved:
  assumes inv: "tv_inv s" and env: "env_ok s (LoadResolved i cs)"
  shows "tv_inv (load_resolved i cs s)"
proof -
  let ?ns = "tv_nodes s"
  have ok: "ids_ok ?ns" and lz: "lazy_ok ?ns" and ld: "loading s \<subseteq> set (pending_loads s)"
    using inv by (simp_all add: tv_inv_def)
  have "ids_ok (update_node ?ns i (mark_loaded cs))"
  proof (cases "find_node ?ns i")
    case None
    then show ?thesis using ok by (simp add: update_node_noop find_node_None_iff)
  next
    case (Some n)
    have ok': "ids_ok (?ns @ cs)" using ok env by (auto simp: ids_ok_append)
    have "mset (node_ids (mark_loaded cs n)) \<subseteq># mset (node_ids n) + mset (forest_ids cs)"
      by simp
    then show ?thesis by (rule update_node_ids_ok [OF ok' Some])
  qed
  moreover have "lazy_ok (update_node ?ns i (mark_loaded cs))"
    using env lz by (intro update_node_lazy_ok) (simp_all add:)
  ultimately show ?thesis using ld by (simp add: load_resolved_def tv_inv_def Let_def subset_remove1)
qed

lemma tv_inv_commit_edit: "tv_inv s \<Longrightarrow> tv_inv (commit_edit s)"
proof -
  assume inv: "tv_inv s"
  have "ids_ok (update_node (tv_nodes s) e (set_name nm))" for e nm
  proof (cases "find_node (tv_nodes s) e")
    case None
    then show ?thesis using inv by (simp add: update_node_noop find_node_None_iff tv_inv_def)
  next
    case (Some n)
    have "ids_ok (tv_nodes s @ [])" using inv by (simp add: tv_inv_def)
    then show ?thesis using Some by (rule update_node_ids_ok) simp
  qed
  moreover have "lazy_ok (update_node (tv_nodes s) e (set_name nm))" for e nm
    using inv by (intro update_node_lazy_ok) (simp_all add: tv_inv_def)
  ultimately show ?thesis
    using inv by (auto simp: commit_edit_def Let_def split: option.split)
qed

lemma tv_inv_commit_add_child:
  assumes inv: "tv_inv s" and env: "env_ok s (CommitAddChild fresh)"
  shows "tv_inv (commit_add_child fresh s)"
proof -
  have "ids_ok (update_node (tv_nodes s) p (append_child (Node fresh nm None None)))" for p nm
  proof (cases "find_node (tv_nodes s) p")
    case None
    then show ?thesis using inv by (simp add: update_node_noop find_node_None_iff tv_inv_def)
  next
    case (Some n)
    have "ids_ok (tv_nodes s @ [(Node fresh nm None None)])" using inv env by (simp add: ids_ok_append_leaf tv_inv_def)
    then show ?thesis using Some by (rule update_node_ids_ok) simp
  qed
  moreover have "lazy_ok (update_node (tv_nodes s) p (append_child (Node fresh nm None None)))" for p nm
    using inv by (intro update_node_lazy_ok) (simp_all add: tv_inv_def)
  ultimately show ?thesis
    using inv by (auto simp: commit_add_child_def Let_def split: option.split)
qed

lemma tv_inv_remove_req: "tv_inv s \<Longrightarrow> tv_inv (remove_req i ok s)"
  using remove_node_ok [of "tv_nodes s" i]
  by (auto simp: remove_req_def Let_def tv_inv_def)

lemma tv_inv_apply_move: "tv_inv s \<Longrightarrow> tv_inv (apply_move d dest s)"
  by (auto simp: apply_move_def tv_inv_def move_node_keeps_ids_ok move_node_keeps_lazy_ok)

lemma tv_inv_drop_on_node: "tv_inv s \<Longrightarrow> tv_inv (drop_on_node t a b y r h s)"
  by (simp add: drop_on_node_def tv_inv_apply_move split: option.split)

lemma tv_inv_drop_on_list: "tv_inv s \<Longrightarrow> tv_inv (drop_on_list p a b s)"
  by (simp add: drop_on_list_def tv_inv_apply_move split: option.split)

lemma tv_inv_commit_add_root:
  "tv_inv s \<Longrightarrow> env_ok s (CommitAddRoot fresh) \<Longrightarrow> tv_inv (commit_add_root fresh s)"
  by (auto simp: commit_add_root_def Let_def tv_inv_def ids_ok_append_leaf)

lemmas tv_inv_handlers = tv_inv_toggle_expand tv_inv_load_failed tv_inv_load_resolved
  tv_inv_commit_edit tv_inv_commit_add_child tv_inv_remove_req tv_inv_drop_on_node
  tv_inv_drop_on_list tv_inv_commit_add_root

lemma tv_inv_step: "tv_inv s \<Longrightarrow> env_ok s e \<Longrightarrow> tv_inv (tv_step s e)"
proof (cases e)
  case (StartEdit i)
  then show "tv_inv s \<Longrightarrow> env_ok s e \<Longrightarrow> tv_inv (tv_step s e)"
    by (simp add: start_edit_def split: option.split)
qed (simp_all add: tv_inv_handlers change_edit_draft_def cancel_edit_def begin_add_child_def
       ensure_expanded_def change_child_draft_def cancel_add_child_def drag_start_def drag_end_def
       row_drag_over_def list_drag_over_def list_drag_leave_def toggle_add_root_def
       change_root_draft_def cancel_add_root_def)

lemma tv_reach_inv: "tv_reach s0 s \<Longrightarrow> tv_inv s0 \<Longrightarrow> tv_inv s"
  by (induction rule: tv_reach.induct) (simp_all add: tv_inv_step)

lemma tv_run_simps [simp]:
  "tv_run s [] = s" "tv_run s (e # es) = tv_run (tv_step s e) es"
  by (simp_all add: tv_run_def)

lemma tv_reach_run: "tv_reach s0 s \<Longrightarrow> tv_admissible s es \<Longrightarrow> tv_reach s0 (tv_run s es)"
  by (induction es arbitrary: s) (auto intro: tv_reach_step)

lemma tv_reach_init_run: "tv_admissible s0 es \<Longrightarrow> tv_reach s0 (tv_run s0 es)"
  by (rule tv_reach_run [OF tv_reach_refl])

lemma tv_inv_init: "ids_ok ns \<Longrightarrow> lazy_ok ns \<Longrightarrow> tv_inv (tv_init (Some ns) d)"
  by (simp add: tv_inv_def tv_init_def tv_nodes_def)

subsection \<open>Reading the forest after an update\<close>

lemma update_node_find:
  assumes ok: "ids_ok (update_node ns i f)" and n: "find_node ns i = Some n" and fid: "nid (f n) = i"
  shows "find_node (update_node ns i f) i = Some (f n)"
  using find_node_unique [OF ok update_node_in [OF n]] fid by simp

subsection \<open>Controlled and uncontrolled mode\<close>

lemma ui_view_simps [simp]:
  "tv_nodes (ui_view s) = tv_nodes s" "tv_value (ui_view s) = None"
  "ui_view (ui_view s) = ui_view s"
  by (simp_all add: ui_view_def tv_nodes_def)

lemma ui_view_set_nodes [simp]: "ui_view (set_nodes ns s) = set_nodes ns (ui_view s)"
  by (simp add: ui_view_def set_nodes_def app_on_change_def tv_nodes_def split: option.split)

lemma ui_view_step: "ui_view (tv_step s e) = tv_step (ui_view s) e"
  by (cases e)
    (simp_all add: ui_view_def tv_nodes_def Let_def toggle_expand_def load_resolved_def
       load_failed_def start_edit_def change_edit_draft_def commit_edit_def cancel_edit_def
       begin_add_child_def ensure_expanded_def change_child_draft_def commit_add_child_def
       cancel_add_child_def remove_req_def drag_start_def drag_end_def row_drag_over_def
       list_drag_over_def list_drag_leave_def drop_on_node_def drop_on_list_def apply_move_def
       read_dragged_id_def toggle_add_root_def change_root_draft_def commit_add_root_def
       cancel_add_root_def set_nodes_def app_on_change_def
     split: option.split)

subsection \<open>Nodes whose children are unknown\<close>

lemma unloaded_ids_simps [simp]:
  "unloaded_ids [] = {}"
  "unloaded_ids (n # ns) =
     (if children n = None then {nid n} else {}) \<union> unloaded_ids (children_list n) \<union> unloaded_ids ns"
  "unloaded_ids (xs @ ys) = unloaded_ids xs \<union> unloaded_ids ys"
  by (auto simp: unloaded_ids_def)

lemma unloaded_ids_sub_ids: "unloaded_ids ns \<subseteq> set (forest_ids ns)"
  by (auto simp: unloaded_ids_def forest_ids_def)

lemma unloaded_ids_node:
  "m \<in> set (forest_nodes ns) \<Longrightarrow> unloaded_ids [m] \<subseteq> unloaded_ids ns"
  using forest_nodes_children_subset [of m ns] by (auto simp: unloaded_ids_def)

lemma unloaded_ids_splice_in [simp]:
  "unloaded_ids (splice_in k x xs) = unloaded_ids [x] \<union> unloaded_ids xs"
proof -
  have "unloaded_ids xs = unloaded_ids (take k xs) \<union> unloaded_ids (drop k xs)"
    by (metis append_take_drop_id unloaded_ids_simps(3))
  then show ?thesis by (auto simp: splice_in_def)
qed

lemma unloaded_ids_update_node:
  assumes "\<And>m. unloaded_ids [f m] \<subseteq> unloaded_ids [m] \<union> X"
  shows "unloaded_ids (update_node ns i f) \<subseteq> unloaded_ids ns \<union> X"
  using assms
proof (induction ns i f rule: update_node.induct)
  case (1 i f)
  then show ?case by simp
next
  case (2 j nm ch lz ns i f)
  have t: "unloaded_ids (update_node ns i f) \<subseteq> unloaded_ids ns \<union> X" by (rule "2.IH"(2) [OF "2.prems"])
  show ?case
  proof (cases "j = i")
    case True
    with t "2.prems" [of "Node j nm ch lz"] show ?thesis by auto
  next
    case False
    show ?thesis
    proof (cases ch rule: children_cases)
      case (NonEmpty c cs)
      have "unloaded_ids (update_node (c # cs) i f) \<subseteq> unloaded_ids (c # cs) \<union> X"
        by (rule "2.IH"(1) [OF False NonEmpty refl "2.prems"])
      with False NonEmpty t show ?thesis by auto
    qed (use False t in auto)
  qed
qed

lemma unloaded_ids_prune: "unloaded_ids (prune_forest ns i) \<subseteq> unloaded_ids ns"
  by (induction ns i rule: prune_forest.induct) auto

lemma unloaded_ids_insert_node_at:
  "unloaded_ids (insert_node_at ns x p k) \<subseteq> unloaded_ids ns \<union> unloaded_ids [x]"
proof (cases p)
  case None
  then show ?thesis by (auto simp: insert_node_at_def)
next
  case (Some q)
  have "unloaded_ids [insert_child x k m] \<subseteq> unloaded_ids [m] \<union> unloaded_ids [x]" for m
    by (auto simp: insert_child_def)
  then show ?thesis using Some by (simp add: insert_node_at_def unloaded_ids_update_node)
qed

lemma unloaded_ids_move_node:
  assumes ok: "ids_ok ns"
  shows "unloaded_ids (move_node ns d dest) \<subseteq> unloaded_ids ns"
  using ok
proof (cases rule: move_node_cases [where d = d and dest = dest])
  case unchanged
  then show ?thesis by simp
next
  case (moved n p k)
  have "n \<in> set (forest_nodes ns)" using find_node_SomeD [OF moved(1)] by simp
  then have "unloaded_ids [n] \<subseteq> unloaded_ids ns" by (rule unloaded_ids_node)
  with moved(2) unloaded_ids_insert_node_at [of "prune_forest ns d" n p k] unloaded_ids_prune [of ns d]
  show ?thesis by auto
qed

lemma unloaded_ids_step:
  assumes inv: "tv_inv s"
  shows "unloaded_ids (tv_nodes (tv_step s e)) \<subseteq> unloaded_ids (tv_nodes s) \<union> new_ids e"
proof -
  have ok: "ids_ok (tv_nodes s)" using inv by (simp add: tv_inv_def)
  have mv: "unloaded_ids (tv_nodes (apply_move d dest s)) \<subseteq> unloaded_ids (tv_nodes s)" for d dest
    using unloaded_ids_move_node [OF ok] by (simp add: apply_move_def)
  show ?thesis
  proof (cases e)
    case (LoadResolved i cs)
    have "unloaded_ids (update_node (tv_nodes s) i (mark_loaded cs)) \<subseteq>
          unloaded_ids (tv_nodes s) \<union> set (forest_ids cs)"
      by (rule unloaded_ids_update_node) (use unloaded_ids_sub_ids [of cs] in auto)
    then show ?thesis using LoadResolved by (simp add: load_resolved_def Let_def)
  next
    case CommitEdit
    have "unloaded_ids (update_node (tv_nodes s) j (set_name nm)) \<subseteq> unloaded_ids (tv_nodes s) \<union> {}"
      for j nm by (rule unloaded_ids_update_node) simp
    then show ?thesis using CommitEdit by (simp add: commit_edit_def Let_def split: option.split)
  next
    case (CommitAddChild fresh)
    have "unloaded_ids (update_node (tv_nodes s) j (append_child (Node fresh nm None None))) \<subseteq>
          unloaded_ids (tv_nodes s) \<union> {fresh}"
      for j nm by (rule unloaded_ids_update_node) auto
    then show ?thesis using CommitAddChild by (auto simp: commit_add_child_def Let_def split: option.split)
  next
    case (Remove i b)
    from ok show ?thesis
    proof (cases rule: remove_node_cases [where i = i])
      case (found n)
      then show ?thesis using Remove unloaded_ids_prune [of "tv_nodes s" i]
        by (auto simp: remove_req_def Let_def)
    qed (use Remove in \<open>simp add: remove_req_def Let_def\<close>)
  next
    case (DropOnNode t a b y r h)
    then show ?thesis using mv by (auto simp: drop_on_node_def split: option.split)
  next
    case (DropOnList p a b)
    then show ?thesis using mv by (auto simp: drop_on_list_def split: option.split)
  next
    case (CommitAddRoot fresh)
    then show ?thesis by (auto simp: commit_add_root_def Let_def)
  qed (simp_all add: toggle_expand_def load_failed_def start_edit_def change_edit_draft_def
         cancel_edit_def begin_add_child_def ensure_expanded_def change_child_draft_def
         cancel_add_child_def drag_start_def drag_end_def row_drag_over_def list_drag_over_def
         list_drag_leave_def toggle_add_root_def change_root_draft_def cancel_add_root_def Let_def
       split: option.split)
qed

lemma new_ids_fresh: "env_ok s e \<Longrightarrow> new_ids e \<inter> set (forest_ids (tv_nodes s)) = {}"
  by (cases e) auto

subsection \<open>Completing the pending loads\<close>

lemma completion_run:
  assumes "list_all2 (\<lambda>e i. e = LoadFailed i \<or> (\<exists>cs. e = LoadResolved i cs)) es (pending_loads s)"
    and "loading s \<subseteq> set (pending_loads s)"
  shows "pending_loads (tv_run s es) = [] \<and> loading (tv_run s es) = {}"
  using assms
proof (induction es arbitrary: s)
  case Nil
  then show ?case by simp
next
  case (Cons e es)
  obtain i rest where p: "pending_loads s = i # rest" and e: "e = LoadFailed i \<or> (\<exists>cs. e = LoadResolved i cs)"
    and r: "list_all2 (\<lambda>e i. e = LoadFailed i \<or> (\<exists>cs. e = LoadResolved i cs)) es rest"
    using Cons.prems(1) by (cases "pending_loads s") auto
  have "pending_loads (tv_step s e) = rest \<and> loading (tv_step s e) \<subseteq> set rest"
    using e p Cons.prems(2) subset_remove1 [of "loading s" "pending_loads s" i]
    by (auto simp: load_failed_def load_resolved_def Let_def)
  then show ?case using Cons.IH [of "tv_step s e"] r by simp
qed

text \<open>Adding a child to a lazy node that was never loaded (the add-child input
  appears because \<open>beginAddChild\<close> only expands) marks the node loaded with just
  the new child; expanding it later never calls the loader.\<close>

lemma add_child_to_unloaded_lazy:
  "tv_nodes (tv_run ex_lazy_tv [BeginAddChild ''A'', ChangeChildDraft ''Y'', CommitAddChild ''y1''])
     = [Node ''A'' ''A'' (Some [Node ''y1'' ''Y'' None None]) (Some False)] \<and>
   pending_loads (tv_run ex_lazy_tv [BeginAddChild ''A'', ChangeChildDraft ''Y'', CommitAddChild ''y1'',
     ToggleExpand ''A'', ToggleExpand ''A'']) = []"
  by (simp add: tv_handler_defs trim_def js_space_def)

text \<open>A trace: deleting the lazy root while its load is in flight leaves the id in the
  loading set.\<close>

lemma remove_keeps_loading_flag:
  "tv_reach ex_lazy_tv (tv_run ex_lazy_tv [ToggleExpand ''A'', Remove ''A'' True]) \<and>
   tv_nodes (tv_run ex_lazy_tv [ToggleExpand ''A'', Remove ''A'' True]) = [] \<and>
   loading (tv_run ex_lazy_tv [ToggleExpand ''A'', Remove ''A'' True]) = {''A''}"
  by (intro conjI tv_reach_init_run)
     (simp_all add: tv_init_def tv_nodes_def toggle_expand_def remove_req_def Let_def
        set_nodes_def app_on_change_def)

text \<open>Two updates addressed to one id compose when the first keeps the id; a
  load's updater discards what an earlier load and an added child produced.\<close>

lemma length_update_node [simp]: "length (update_node ns i f) = length ns"
  by (induction ns i f rule: update_node.induct) auto

lemma update_node_twice:
  assumes "\<And>m. nid m = i \<Longrightarrow> nid (g m) = i"
  shows "update_node (update_node ns i g) i h = update_node ns i (h \<circ> g)"
  using assms
proof (induction ns i g rule: update_node.induct)
  case (2 j nm ch lz ns i g)
  show ?case
  proof (cases "j = i")
    case True
    then have "nid (g (Node j nm ch lz)) = i" using "2.prems" by simp
    then obtain nm' ch' lz' where "g (Node j nm ch lz) = Node i nm' ch' lz'" by (cases "g (Node j nm ch lz)") auto
    with True 2 show ?thesis by simp
  next
    case False
    consider "ch = None" | "ch = Some []" | c cs where "ch = Some (c # cs)"
      by (metis list.exhaust option.exhaust)
    then show ?thesis
    proof cases
      case (3 c cs)
      obtain x xs where u: "update_node (c # cs) i g = x # xs"
        using length_update_node [of "c # cs" i g] by (cases "update_node (c # cs) i g") auto
      have "update_node (x # xs) i h = update_node (c # cs) i (h \<circ> g)"
        using "2.IH"(1) [OF False 3 refl] "2.prems" u by (simp add: comp_def)
      then show ?thesis using False 3 u "2.IH"(2) "2.prems" by (simp add: comp_def)
    qed (use False 2 in simp_all)
  qed
qed simp

lemma mark_loaded_absorbs:
  "mark_loaded cs (append_child c (mark_loaded cs' m)) = mark_loaded cs m"
  by (simp add: mark_loaded_def append_child_def)

lemma in_remove1_twice [simp]: "x \<in> set (remove1 x (xs @ [x, x]))"
  by (induction xs) auto

section \<open>Properties\<close>

text \<open>Claim C4 (invariant). The controller keeps the forest well formed: in every state reachable by handler calls and loader completions (with fresh ids from \<open>createId\<close> and the loader), ids are unique and non-empty and no lazy node has children.\<close>

lemma controller_forest_ok:
  assumes "tv_reach s0 s" and "tv_inv s0"
  shows "ids_ok (tv_nodes s) \<and> lazy_ok (tv_nodes s)"
  using tv_reach_inv [OF assms] by (simp add: tv_inv_def)

lemma controller_forest_ok_witness:
  "tv_reach ex_lazy_tv (tv_step ex_lazy_tv (ToggleExpand ''A'')) \<and> tv_inv ex_lazy_tv \<and>
   ids_ok (tv_nodes (tv_step ex_lazy_tv (ToggleExpand ''A''))) \<and>
   lazy_ok (tv_nodes (tv_step ex_lazy_tv (ToggleExpand ''A'')))"
proof -
  have r: "tv_reach ex_lazy_tv (tv_step ex_lazy_tv (ToggleExpand ''A''))"
    by (rule tv_reach_step [OF tv_reach_refl]) simp
  have i: "tv_inv ex_lazy_tv" by (rule tv_inv_init) (simp_all add: ids_ok_def)
  show ?thesis using controller_forest_ok [OF r i] r i by simp
qed

text \<open>Claim C7 (functional). A resolved load marks the requesting node loaded: it keeps its id and name, gets \<open>lazy = false\<close> and exactly the loaded children, and leaves the loading set.\<close>

lemma load_resolved_applies:
  assumes inv: "tv_inv s" and p: "i \<in> set (pending_loads s)" and env: "env_ok s (LoadResolved i cs)"
    and n: "find_node (tv_nodes s) i = Some n"
  shows "find_node (tv_nodes (tv_step s (LoadResolved i cs))) i = Some (Node i (name n) (Some cs) (Some False)) \<and>
    i \<notin> loading (tv_step s (LoadResolved i cs))"
proof -
  have ok: "ids_ok (update_node (tv_nodes s) i (mark_loaded cs))"
    using tv_inv_load_resolved [OF inv env] by (simp add: tv_inv_def load_resolved_def Let_def)
  have "nid n = i" using find_node_SomeD [OF n] by simp
  then show ?thesis using update_node_find [OF ok n] p by (simp add: load_resolved_def Let_def mark_loaded_def)
qed

lemma load_resolved_applies_witness:
  "tv_inv (tv_step ex_lazy_tv (ToggleExpand ''A'')) \<and>
   env_ok (tv_step ex_lazy_tv (ToggleExpand ''A'')) (LoadResolved ''A'' [Node ''X'' ''X'' None None]) \<and>
   find_node (tv_nodes (tv_step (tv_step ex_lazy_tv (ToggleExpand ''A'')) (LoadResolved ''A'' [Node ''X'' ''X'' None None]))) ''A''
     = Some (Node ''A'' ''A'' (Some [Node ''X'' ''X'' None None]) (Some False))"
  using load_resolved_applies [of "tv_step ex_lazy_tv (ToggleExpand ''A'')" "''A''" "[Node ''X'' ''X'' None None]"
    "Node ''A'' ''A'' None (Some True)"]
  by (simp add: tv_handler_defs tv_inv_def ids_ok_def)

text \<open>Claim C8 (functional). Toggling expansion flips the node's expansion; it issues one loader call, and marks the node loading, exactly when the node was collapsed, lazy, and its children unset; the forest is not changed.\<close>

lemma toggle_expand_spec:
  "pending_loads (tv_step s (ToggleExpand i)) =
     pending_loads s @ (if i \<notin> expanded s \<and> (case find_node (tv_nodes s) i of None \<Rightarrow> False
                          | Some n \<Rightarrow> lazy n = Some True \<and> children n = None) then [i] else []) \<and>
   loading (tv_step s (ToggleExpand i)) =
     loading s \<union> (if i \<notin> expanded s \<and> (case find_node (tv_nodes s) i of None \<Rightarrow> False
                          | Some n \<Rightarrow> lazy n = Some True \<and> children n = None) then {i} else {}) \<and>
   (i \<in> expanded (tv_step s (ToggleExpand i)) \<longleftrightarrow> i \<notin> expanded s) \<and>
   tv_nodes (tv_step s (ToggleExpand i)) = tv_nodes s"
  by (auto simp: toggle_expand_def Let_def split: option.split)

lemma toggle_expand_spec_witness:
  "pending_loads (tv_step ex_lazy_tv (ToggleExpand ''A'')) = [''A''] \<and>
   pending_loads (tv_step ex_nested_tv (ToggleExpand ''A'')) = []"
  using toggle_expand_spec [of ex_lazy_tv "''A''"] toggle_expand_spec [of ex_nested_tv "''A''"]
  by (simp_all add: tv_init_def tv_nodes_def)

text \<open>Claim C9 (invariant). Known children stay known: no event turns a node of the forest whose children are set back into a node with unset children, so once loaded a node is never loaded again.\<close>

lemma known_children_stay_known:
  assumes inv: "tv_inv s" and env: "env_ok s e"
    and i: "i \<in> set (forest_ids (tv_nodes s))" and known: "i \<notin> unloaded_ids (tv_nodes s)"
  shows "i \<notin> unloaded_ids (tv_nodes (tv_step s e))"
  using unloaded_ids_step [OF inv, of e] new_ids_fresh [OF env] i known by blast

lemma known_children_stay_known_witness:
  "tv_inv ex_nested_tv \<and> ''A'' \<notin> unloaded_ids (tv_nodes (tv_step ex_nested_tv (Remove ''B'' True)))"
  using known_children_stay_known [of ex_nested_tv "Remove ''B'' True" "''A''"]
  by (simp add: tv_handler_defs tv_inv_def ids_ok_def unloaded_ids_def)

text \<open>Claim C11 (functional). Overlapping loads lose an edit, for every collapsed lazy node with unset children: after expand, collapse, expand, the first load's resolution and an added child, the forest is the original with the node updated by the first load and the new child appended; when the second load resolves the forest is the original updated by the second load alone, so the added child is gone.\<close>

lemma overlapping_loads_lose_child:
  assumes f: "find_node (tv_nodes s) i = Some n" and lz: "lazy n = Some True" and un: "children n = None"
    and col: "i \<notin> expanded s" and ne: "i \<noteq> []" and v: "trim v \<noteq> []"
  shows "tv_nodes (tv_run s [ToggleExpand i, ToggleExpand i, ToggleExpand i, LoadResolved i cs1,
            BeginAddChild i, ChangeChildDraft v, CommitAddChild fresh]) =
           update_node (tv_nodes s) i (append_child (Node fresh (trim v) None None) \<circ> mark_loaded cs1) \<and>
         tv_nodes (tv_run s [ToggleExpand i, ToggleExpand i, ToggleExpand i, LoadResolved i cs1,
            BeginAddChild i, ChangeChildDraft v, CommitAddChild fresh, LoadResolved i cs2]) =
           update_node (tv_nodes s) i (mark_loaded cs2)"
  using f lz un col ne v
  by (simp add: tv_run_def toggle_expand_def load_resolved_def Let_def begin_add_child_def
      ensure_expanded_def change_child_draft_def commit_add_child_def update_node_twice
      comp_def mark_loaded_absorbs)

lemma overlapping_loads_lose_child_witness:
  "tv_nodes (tv_run ex_lazy_tv [ToggleExpand ''A'', ToggleExpand ''A'', ToggleExpand ''A'',
      LoadResolved ''A'' [Node ''X'' ''X'' None None], BeginAddChild ''A'', ChangeChildDraft ''Y'',
      CommitAddChild ''y1'', LoadResolved ''A'' [Node ''Z'' ''Z'' None None]]) =
     [Node ''A'' ''A'' (Some [Node ''Z'' ''Z'' None None]) (Some False)]"
  using overlapping_loads_lose_child [of ex_lazy_tv "''A''" "Node ''A'' ''A'' None (Some True)" "''Y''"
      "[Node ''X'' ''X'' None None]" "''y1''" "[Node ''Z'' ''Z'' None None]"]
  by (simp add: tv_init_def tv_nodes_def trim_def js_space_def mark_loaded_def)

text \<open>Claim C12 (refinement). The two ownership modes agree: running any event sequence on a controlled component with its owner, then viewing the result as an uncontrolled component, equals running it on the uncontrolled view.\<close>

lemma ownership_modes_agree:
  "ui_view (tv_run s es) = tv_run (ui_view s) es"
  by (induction es arbitrary: s) (simp_all add: ui_view_step)

text \<open>Claim C16 (error). A load resolving for a node that was deleted meanwhile is a silent no-op on the forest (spec section 5).\<close>

lemma load_resolved_removed_noop:
  "i \<notin> set (forest_ids (tv_nodes s)) \<Longrightarrow> tv_nodes (tv_step s (LoadResolved i cs)) = tv_nodes s"
  by (simp add: load_resolved_def Let_def update_node_noop)

lemma load_resolved_removed_noop_witness:
  "''A'' \<notin> set (forest_ids (tv_nodes (tv_run ex_lazy_tv [ToggleExpand ''A'', Remove ''A'' True]))) \<and>
   tv_nodes (tv_step (tv_run ex_lazy_tv [ToggleExpand ''A'', Remove ''A'' True]) (LoadResolved ''A'' [Node ''X'' ''X'' None None])) = []"
  using load_resolved_removed_noop [of "''A''" "tv_run ex_lazy_tv [ToggleExpand ''A'', Remove ''A'' True]"
    "[Node ''X'' ''X'' None None]"]
  by (simp add: tv_handler_defs)

text \<open>Claim C25 (liveness). No spinner stays forever: from every reachable state, completing each pending loader call, by resolution or by failure, leaves no node loading and no call pending.\<close>

lemma pending_loads_complete:
  assumes "tv_reach s0 s" and "tv_inv s0"
    and "list_all2 (\<lambda>e i. e = LoadFailed i \<or> (\<exists>cs. e = LoadResolved i cs)) es (pending_loads s)"
  shows "pending_loads (tv_run s es) = [] \<and> loading (tv_run s es) = {}"
  using completion_run [OF assms(3)] tv_reach_inv [OF assms(1,2)] by (simp add: tv_inv_def)

lemma pending_loads_complete_witness:
  "tv_reach ex_lazy_tv (tv_step ex_lazy_tv (ToggleExpand ''A'')) \<and> tv_inv ex_lazy_tv \<and>
   loading (tv_run (tv_step ex_lazy_tv (ToggleExpand ''A'')) [LoadFailed ''A'']) = {}"
proof -
  have r: "tv_reach ex_lazy_tv (tv_step ex_lazy_tv (ToggleExpand ''A''))"
    by (rule tv_reach_step [OF tv_reach_refl]) simp
  have i: "tv_inv ex_lazy_tv" by (rule tv_inv_init) (simp_all add: ids_ok_def)
  have l: "list_all2 (\<lambda>e i. e = LoadFailed i \<or> (\<exists>cs. e = LoadResolved i cs)) [LoadFailed ''A'']
             (pending_loads (tv_step ex_lazy_tv (ToggleExpand ''A'')))"
    by (simp add: tv_handler_defs)
  show ?thesis using pending_loads_complete [OF r i l] r i by simp
qed

text \<open>Claim C27 (functional). Renaming: committing ends the edit; a non-blank draft gives the node the trimmed name and keeps its children, lazy flag and all ids; a draft that trims to empty changes nothing.\<close>

lemma commit_edit_correct:
  assumes inv: "tv_inv s" and e: "editing_id s = Some i" and n: "find_node (tv_nodes s) i = Some n"
  shows "find_node (tv_nodes (tv_step s CommitEdit)) i =
           Some (if trim (edit_draft s) = [] then n else Node i (trim (edit_draft s)) (children n) (lazy n)) \<and>
         mset (forest_ids (tv_nodes (tv_step s CommitEdit))) = mset (forest_ids (tv_nodes s)) \<and>
         editing_id (tv_step s CommitEdit) = None"
proof -
  have ok: "ids_ok (tv_nodes s)" using inv by (simp add: tv_inv_def)
  have i: "i \<noteq> []" and ni: "nid n = i" using find_node_ok [OF ok n] by simp_all
  show ?thesis
  proof (cases "trim (edit_draft s) = []")
    case True
    then show ?thesis using e i n by (simp add: commit_edit_def)
  next
    case nb: False
    let ?u = "update_node (tv_nodes s) i (set_name (trim (edit_draft s)))"
    have ms: "mset (forest_ids ?u) = mset (forest_ids (tv_nodes s))"
      using update_node_mset [OF ok n, of "set_name (trim (edit_draft s))"] by simp
    then have "ids_ok ?u" using ok by (rule ids_ok_mset)
    then have "find_node ?u i = Some (set_name (trim (edit_draft s)) n)"
      using ni by (intro update_node_find [OF _ n]) simp_all
    then show ?thesis using e i nb ms ni by (simp add: commit_edit_def Let_def set_name_def)
  qed
qed

lemma commit_edit_correct_witness:
  "tv_inv (tv_run ex_nested_tv [StartEdit ''B'', ChangeEditDraft '' Bee'']) \<and>
   find_node (tv_nodes (tv_run ex_nested_tv [StartEdit ''B'', ChangeEditDraft '' Bee'', CommitEdit])) ''B''
     = Some (Node ''B'' ''Bee'' None None)"
  using commit_edit_correct [of "tv_run ex_nested_tv [StartEdit ''B'', ChangeEditDraft '' Bee'']" "''B''"
    "Node ''B'' ''B'' None None"]
  by (simp add: tv_handler_defs tv_inv_def ids_ok_def trim_def js_space_def)

text \<open>Claim C28 (functional). Adding a child appends a leaf with the fresh id and trimmed name as the parent's last child, sets \<open>lazy = false\<close> on the parent, keeps ids unique and ends the add.\<close>

lemma commit_add_child_appends:
  assumes inv: "tv_inv s" and a: "adding_child_to_id s = Some p" and n: "find_node (tv_nodes s) p = Some n"
    and nb: "trim (child_draft s) \<noteq> []" and env: "env_ok s (CommitAddChild fresh)"
  shows "find_node (tv_nodes (tv_step s (CommitAddChild fresh))) p =
           Some (Node p (name n) (Some (children_list n @ [Node fresh (trim (child_draft s)) None None])) (Some False)) \<and>
         ids_ok (tv_nodes (tv_step s (CommitAddChild fresh))) \<and>
         adding_child_to_id (tv_step s (CommitAddChild fresh)) = None"
proof -
  have ok: "ids_ok (tv_nodes s)" using inv by (simp add: tv_inv_def)
  have p: "p \<noteq> []" and ni: "nid n = p" using find_node_ok [OF ok n] by simp_all
  have okc: "ids_ok (tv_nodes (tv_step s (CommitAddChild fresh)))"
    using tv_inv_commit_add_child [OF inv env] by (simp add: tv_inv_def)
  let ?u = "update_node (tv_nodes s) p (append_child (Node fresh (trim (child_draft s)) None None))"
  have "ids_ok ?u" using okc a p nb by (simp add: commit_add_child_def Let_def)
  then have "find_node ?u p = Some (append_child (Node fresh (trim (child_draft s)) None None) n)"
    using ni by (intro update_node_find [OF _ n]) simp_all
  then show ?thesis using a p nb ni okc by (simp add: commit_add_child_def Let_def append_child_def)
qed

lemma commit_add_child_appends_witness:
  "tv_inv (tv_run ex_nested_tv [BeginAddChild ''A'', ChangeChildDraft ''C'']) \<and>
   find_node (tv_nodes (tv_run ex_nested_tv [BeginAddChild ''A'', ChangeChildDraft ''C'', CommitAddChild ''c1''])) ''A''
     = Some (Node ''A'' ''A'' (Some [Node ''B'' ''B'' None None, Node ''c1'' ''C'' None None]) (Some False))"
  using commit_add_child_appends [of "tv_run ex_nested_tv [BeginAddChild ''A'', ChangeChildDraft ''C'']" "''A''"
    "hd ex_nested" "''c1''"]
  by (simp add: tv_handler_defs tv_inv_def ids_ok_def trim_def js_space_def)

text \<open>Claim C29 (functional). Removal is guarded by confirmation: declined, nothing changes; confirmed, the id is gone from the forest and neither edited, receiving a child, nor expanded, while the loading set and the pending loader calls are left as they were, so a node deleted mid-load keeps its loading flag.\<close>

lemma remove_req_effect:
  assumes inv: "tv_inv s"
  shows "tv_step s (Remove i False) = s \<and>
    i \<notin> set (forest_ids (tv_nodes (tv_step s (Remove i True)))) \<and>
    editing_id (tv_step s (Remove i True)) \<noteq> Some i \<and>
    adding_child_to_id (tv_step s (Remove i True)) \<noteq> Some i \<and>
    i \<notin> expanded (tv_step s (Remove i True)) \<and>
    loading (tv_step s (Remove i True)) = loading s \<and>
    pending_loads (tv_step s (Remove i True)) = pending_loads s"
proof -
  have ok: "ids_ok (tv_nodes s)" using inv by (simp add: tv_inv_def)
  then show ?thesis
  proof (cases rule: remove_node_cases [where i = i])
    case absent
    then show ?thesis by (simp add: remove_req_def)
  next
    case (found n)
    then show ?thesis by (simp add: remove_req_def Let_def prune_forest_removes)
  qed
qed

lemma remove_req_effect_witness:
  "tv_inv ex_nested_tv \<and> tv_nodes (tv_step ex_nested_tv (Remove ''B'' True)) = [Node ''A'' ''A'' (Some []) None]"
  using remove_req_effect [of ex_nested_tv "''B''"]
  by (simp add: tv_handler_defs tv_inv_def ids_ok_def)

text \<open>Claim C30 (bounds). The row is split in thirds: a pointer in the top third drops before, in the middle third (both bounds included) inside, in the bottom third after.\<close>

lemma drop_position_thirds:
  assumes "0 < h"
  shows "(compute_drop_position y r h = Before \<longleftrightarrow> y - r < h / 3) \<and>
         (compute_drop_position y r h = Inside \<longleftrightarrow> h / 3 \<le> y - r \<and> y - r \<le> 2 * h / 3) \<and>
         (compute_drop_position y r h = After \<longleftrightarrow> 2 * h / 3 < y - r)"
  using assms by (auto simp: compute_drop_position_def Let_def)

lemma drop_position_thirds_witness:
  "(0::real) < 30 \<and> compute_drop_position 15 0 30 = Inside"
  using drop_position_thirds [of 30 15 0] by simp

end
