(* ===== verification/Tree_Loader.thy ===== *)
theory Tree_Loader
  imports Tree_View
begin

text \<open>
  The mock backend \<open>src/TreeViewComponent/src/mock/treeApi.ts\<close> and the ids it
  draws from \<open>createId\<close> (\<open>treeUtils.ts\<close> lines 3--9).  \<open>createId\<close> is random, so
  its successive results are an input of the model: a function \<open>ids\<close> from the call
  number to the id returned.  The loader's delay (\<open>setTimeout\<close> with a random
  jitter) is the time between the \<open>ToggleExpand\<close> and \<open>LoadResolved\<close> events of
  the controller model and is not modelled here.
\<close>

section \<open>JavaScript built-ins used by the mock\<close>

text \<open>\<open>toUpperCase\<close> and \<open>String(n)\<close> are \<^const>\<open>js_to_upper\<close> and
  \<^const>\<open>js_nat_string\<close> of the prelude.\<close>

section \<open>The mock loader\<close>

definition letters :: string where
  "letters = ''ABCDEFGHIJKLMNOPQRSTUVWXYZ''"

text \<open>The node built for index \<open>i\<close> by \<open>makeChildren\<close> (lines 12--19), with the
  id \<open>fresh\<close> returned by its \<open>createId()\<close> call.\<close>

definition mock_child :: "string \<Rightarrow> nat \<Rightarrow> nat \<Rightarrow> node_id \<Rightarrow> node" where
  "mock_child base depth i fresh =
     (let nm = ''Level '' @ [letters ! ((depth + i) mod length letters)];
          lz = (depth < 3 \<and> i mod 2 = 0)
      in Node fresh (base @ ''-'' @ js_nat_string (i + 1) @ '' '' @ nm) (if lz then None else Some []) (Some lz))"

text \<open>\<open>makeChildren(seed, count, depth)\<close> (lines 8--21); child \<open>i\<close> takes the
  \<open>i\<close>-th id of \<open>ids\<close>.\<close>

definition make_children :: "string \<Rightarrow> nat \<Rightarrow> nat \<Rightarrow> (nat \<Rightarrow> node_id) \<Rightarrow> node list" where
  "make_children seed cnt depth ids =
     (let base = (case take 1 (js_to_upper seed) of [] \<Rightarrow> ''N'' | b \<Rightarrow> b)
      in map (\<lambda>i. mock_child base depth i (ids i)) [0..<cnt])"

text \<open>\<open>mockLoadChildren(nodeId)\<close> (lines 46--54), after its delay.  For the empty
  id \<open>charCodeAt(0)\<close> is \<open>NaN\<close>, so \<open>count\<close> is \<open>NaN\<close> and \<open>Array.from\<close> makes
  an empty array.\<close>

definition mock_load_children :: "node_id \<Rightarrow> (nat \<Rightarrow> node_id) \<Rightarrow> node list" where
  "mock_load_children node_id ids =
     (if node_id = [] then []
      else let cnt = 2 + of_char (hd node_id) mod 3;
               depth = 1 + of_char (last node_id) mod 4
           in make_children node_id cnt depth ids)"

text \<open>\<open>createMockTree()\<close> (lines 23--44); the six \<open>createId()\<close> calls in evaluation
  order.\<close>

definition create_mock_tree :: "(nat \<Rightarrow> node_id) \<Rightarrow> node list" where
  "create_mock_tree ids =
     [Node (ids 0) ''A'' None (Some True),
      Node (ids 1) ''B''
        (Some [Node (ids 2) ''C'' None (Some True),
               Node (ids 3) ''C-2'' (Some [Node (ids 4) ''D'' None None]) None]) None,
      Node (ids 5) ''B-2'' None (Some True)]"

text \<open>\<open>App\<close> (\<open>App.tsx\<close> lines 7--8 and 22): the controlled tree view over the mock
  tree, with \<open>defaultValue\<close> unset.\<close>

definition app_init :: "(nat \<Rightarrow> node_id) \<Rightarrow> tv_state" where
  "app_init ids = tv_init (Some (create_mock_tree ids)) None"

text \<open>The spec's node invariant (section 3): children are unset exactly when the
  node is lazy.\<close>

definition spec_node_ok :: "node list \<Rightarrow> bool" where
  "spec_node_ok ns \<longleftrightarrow> list_all (\<lambda>n. (children n = None) = (lazy n = Some True)) (forest_nodes ns)"

text \<open>Ids for the examples: the \<open>k\<close>-th \<open>createId()\<close> call returns \<open>nk\<close>.\<close>

abbreviation ex_ids :: "nat \<Rightarrow> node_id" where
  "ex_ids \<equiv> \<lambda>k. ''n'' @ js_nat_string k"

section \<open>Lemmas\<close>

lemma make_children_length [simp]: "length (make_children seed cnt depth ids) = cnt"
  by (simp add: make_children_def)

lemma forest_nodes_leaves: "\<forall>n \<in> set ns. children_list n = [] \<Longrightarrow> forest_nodes ns = ns"
  by (induction ns) auto

lemma mock_child_simps [simp]:
  "nid (mock_child base depth i fresh) = fresh"
  "children_list (mock_child base depth i fresh) = []"
  "(children (mock_child base depth i fresh) = None) = (lazy (mock_child base depth i fresh) = Some True)"
  by (simp_all add: mock_child_def Let_def children_list_def)

lemma forest_nodes_make_children [simp]:
  "forest_nodes (make_children seed cnt depth ids) = make_children seed cnt depth ids"
  by (rule forest_nodes_leaves) (auto simp: make_children_def)

lemma forest_ids_make_children [simp]:
  "forest_ids (make_children seed cnt depth ids) = map ids [0..<cnt]"
  unfolding forest_ids_def forest_nodes_make_children by (simp add: make_children_def comp_def)

lemma make_children_spec_ok: "spec_node_ok (make_children seed cnt depth ids)"
  unfolding spec_node_ok_def forest_nodes_make_children by (auto simp: list_all_iff make_children_def)

lemma make_children_lazy_ok: "lazy_ok (make_children seed cnt depth ids)"
  unfolding lazy_ok_def forest_nodes_make_children by (auto simp: list_all_iff make_children_def)

lemma mock_load_children_cases:
  "mock_load_children i ids = [] \<or>
   (\<exists>seed cnt depth. cnt \<le> 4 \<and> mock_load_children i ids = make_children seed cnt depth ids)"
proof (cases "i = []")
  case False
  have "2 + of_char (hd i) mod 3 \<le> (4::nat)" by simp
  moreover have "mock_load_children i ids =
      make_children i (2 + of_char (hd i) mod 3) (1 + of_char (last i) mod 4) ids"
    using False by (simp add: mock_load_children_def)
  ultimately show ?thesis by blast
qed (simp add: mock_load_children_def)

lemma forest_ids_create_mock_tree: "forest_ids (create_mock_tree ids) = map ids [0..<6]"
  by (simp add: create_mock_tree_def upt_rec numeral_eq_Suc)

lemma ids_ok_map_ids:
  "distinct (map ids [0..<m]) \<Longrightarrow> [] \<notin> ids ` {..<m} \<Longrightarrow> cnt \<le> m \<Longrightarrow>
   ids_ok (make_children seed cnt depth ids)"
  by (auto simp: ids_ok_def distinct_map inj_on_subset)

lemma mock_load_children_ok:
  assumes d: "distinct (map ids [0..<4])" and ne: "[] \<notin> ids ` {..<4}"
  shows "ids_ok (mock_load_children i ids) \<and> lazy_ok (mock_load_children i ids) \<and>
         spec_node_ok (mock_load_children i ids) \<and> set (forest_ids (mock_load_children i ids)) \<subseteq> ids ` {..<4}"
  using mock_load_children_cases [of i ids]
proof
  assume "mock_load_children i ids = []"
  then show ?thesis by (simp add: spec_node_ok_def)
next
  assume "\<exists>seed cnt depth. cnt \<le> 4 \<and> mock_load_children i ids = make_children seed cnt depth ids"
  then obtain seed cnt depth where c: "cnt \<le> 4" and eq: "mock_load_children i ids = make_children seed cnt depth ids"
    by blast
  show ?thesis using ids_ok_map_ids [OF d ne c] c
    by (auto simp: eq make_children_lazy_ok make_children_spec_ok)
qed

text \<open>The mock tree does not satisfy the spec's node invariant: the leaf \<open>D\<close>
  (line 35) has unset children but is not lazy.\<close>

lemma mock_tree_not_spec_ok: "\<not> spec_node_ok (create_mock_tree ids)"
  by (simp add: spec_node_ok_def create_mock_tree_def)

section \<open>Properties\<close>

text \<open>Claim C24 (invariant). The application as wired in \<open>App.tsx\<close> stays well formed: starting from \<open>createMockTree()\<close> with distinct non-empty ids, every reachable state of the tree view has unique ids and no lazy node with children.\<close>

lemma app_reachable_ok:
  assumes d: "distinct (map ids [0..<6])" and ne: "[] \<notin> ids ` {..<6}" and r: "tv_reach (app_init ids) s"
  shows "ids_ok (tv_nodes s) \<and> lazy_ok (tv_nodes s)"
proof -
  have "ids_ok (create_mock_tree ids)"
    using d ne unfolding ids_ok_def forest_ids_create_mock_tree by (simp add: atLeast0LessThan)
  then have "tv_inv (app_init ids)" unfolding app_init_def by (rule tv_inv_init) (simp add: create_mock_tree_def)
  then show ?thesis using tv_reach_inv [OF r] by (simp add: tv_inv_def)
qed

lemma app_reachable_ok_witness:
  "distinct (map ex_ids [0..<6]) \<and> [] \<notin> ex_ids ` {..<6} \<and> tv_reach (app_init ex_ids) (app_init ex_ids) \<and>
   ids_ok (tv_nodes (app_init ex_ids))"
proof -
  have l: "{..<6::nat} = {0, 1, 2, 3, 4, 5}" by auto
  have d: "distinct (map ex_ids [0..<6])" by (simp add: upt_rec)
  have ne: "[] \<notin> ex_ids ` {..<6}" by (simp add: l)
  show ?thesis using app_reachable_ok [OF d ne tv_reach_refl] d ne tv_reach_refl by simp
qed

text \<open>Claim C26 (safety). The mock loader meets the loader contract: with fresh, distinct, non-empty ids from \<open>createId\<close>, what \<open>mockLoadChildren\<close> returns for any node is an admissible completion of the controller's load (unique ids not in the forest, lazy nodes without children) and every returned node satisfies the spec's node invariant.\<close>

lemma mock_loader_meets_contract:
  assumes d: "distinct (map ids [0..<4])" and ne: "[] \<notin> ids ` {..<4}"
    and fresh: "ids ` {..<4} \<inter> set (forest_ids (tv_nodes s)) = {}"
  shows "env_ok s (LoadResolved i (mock_load_children i ids)) \<and> spec_node_ok (mock_load_children i ids)"
  using mock_load_children_ok [OF d ne] fresh by auto

lemma mock_loader_meets_contract_witness:
  "distinct (map ex_ids [0..<4]) \<and> [] \<notin> ex_ids ` {..<4} \<and>
   ex_ids ` {..<4} \<inter> set (forest_ids (tv_nodes ex_lazy_tv)) = {} \<and>
   env_ok ex_lazy_tv (LoadResolved ''A'' (mock_load_children ''A'' ex_ids))"
proof -
  have l: "{..<4::nat} = {0, 1, 2, 3}" by auto
  have d: "distinct (map ex_ids [0..<4])" by (simp add: upt_rec)
  have ne: "[] \<notin> ex_ids ` {..<4}" by (simp add: l)
  have f: "ex_ids ` {..<4} \<inter> set (forest_ids (tv_nodes ex_lazy_tv)) = {}"
    by (simp add: l tv_init_def tv_nodes_def)
  show ?thesis using mock_loader_meets_contract [OF d ne f, of "''A''"] d ne f by simp
qed

end
