(* ===== verification/Tree_Render.thy ===== *)
theory Tree_Render
  imports Tree_View
begin

text \<open>
  Rendering of the tree view as a pure function of the controller state:
  \<open>renderList\<close> of \<open>TreeView.tsx\<close> (lines 225--345) and the row component
  \<open>TreeNodeRow.tsx\<close>.  The result is an abstract document: the items of each
  \<open><ul>\<close> in order, each row with the props it receives, and what the row shows;
  the component's own markup (toolbar, root input, canvas) is \<open>tv_view\<close>.  For each
  piece of markup a function gives the controller events its DOM handlers raise
  (\<open>row_events\<close>, \<open>add_input_events\<close>, \<open>list_events\<close>, \<open>toolbar_events\<close>),
  so that a user interaction is a list of \<open>tv_event\<close>s run by \<open>tv_run\<close>.
\<close>

section \<open>The rendered document\<close>

text \<open>The props of \<open>TreeNodeRow\<close> that carry data (\<open>TreeNodeRow.tsx\<close> lines 4--11);
  the callbacks are the controller's handlers.\<close>

record row_props =
  rp_node :: node
  rp_depth :: nat
  rp_expanded :: bool
  rp_loading :: bool
  rp_editing :: bool
  rp_edit_draft :: string
  rp_drop_hint :: "drop_position option"

text \<open>An item of a rendered list: the add-child input of the list's parent (lines
  238--266), a node's row with, when expanded, either the loading indicator or its
  child list (lines 268--319), and the root list's empty hint (line 321).\<close>

datatype tv_item =
    AddChildInput node_id string
  | Row row_props "tv_block option"
  | EmptyHint
and tv_block = LoadingIndicator | ChildList "tv_item list"

text \<open>The props \<open>renderList\<close> passes to the row of \<open>n\<close> at \<open>depth\<close> (lines
  273--280).\<close>

definition row_props_of :: "tv_state \<Rightarrow> node \<Rightarrow> nat \<Rightarrow> row_props" where
  "row_props_of s n depth =
     \<lparr>rp_node = n, rp_depth = depth, rp_expanded = nid n \<in> expanded s, rp_loading = nid n \<in> loading s,
      rp_editing = (editing_id s = Some (nid n)),
      rp_edit_draft = (if editing_id s = Some (nid n) then edit_draft s else []),
      rp_drop_hint = (case drop_hint s of Some (t, h) \<Rightarrow> if t = nid n then Some h else None | None \<Rightarrow> None)\<rparr>"

text \<open>The add-child input of a child list (lines 238--266): shown in the list of
  \<open>parentId\<close> when that is the node receiving a child.\<close>

definition add_child_slot :: "tv_state \<Rightarrow> node_id option \<Rightarrow> tv_item list" where
  "add_child_slot s parent =
     (case parent of Some p \<Rightarrow> if adding_child_to_id s = Some p then [AddChildInput p (child_draft s)] else []
      | None \<Rightarrow> [])"

text \<open>\<open>renderList(list, parentId, depth)\<close>: \<open>render_list\<close> for the \<open><ul>\<close>,
  \<open>render_rows\<close> for \<open>list.map\<close>, \<open>render_row\<close> for one \<open><li>\<close>.  A child list
  is rendered from \<open>node.children ?? []\<close>.\<close>

fun render_list :: "tv_state \<Rightarrow> node list \<Rightarrow> node_id option \<Rightarrow> nat \<Rightarrow> tv_item list"
  and render_rows :: "tv_state \<Rightarrow> node list \<Rightarrow> nat \<Rightarrow> tv_item list"
  and render_row :: "tv_state \<Rightarrow> node \<Rightarrow> nat \<Rightarrow> tv_item" where
  "render_list s list parent depth =
     add_child_slot s parent @ render_rows s list depth
     @ (if depth = 0 \<and> list = [] then [EmptyHint] else [])"
| "render_rows s [] depth = []"
| "render_rows s (n # ns) depth = render_row s n depth # render_rows s ns depth"
| "render_row s (Node j nm None lz) depth =
     Row (row_props_of s (Node j nm None lz) depth)
       (if j \<in> expanded s then Some (if j \<in> loading s then LoadingIndicator
                                     else ChildList (render_list s [] (Some j) (Suc depth)))
        else None)"
| "render_row s (Node j nm (Some cs) lz) depth =
     Row (row_props_of s (Node j nm (Some cs) lz) depth)
       (if j \<in> expanded s then Some (if j \<in> loading s then LoadingIndicator
                                     else ChildList (render_list s cs (Some j) (Suc depth)))
        else None)"

text \<open>The rows of a rendered document in document order, and the add-child
  inputs it contains.\<close>

fun items_rows :: "tv_item list \<Rightarrow> row_props list"
  and item_rows :: "tv_item \<Rightarrow> row_props list"
  and block_rows :: "tv_block option \<Rightarrow> row_props list" where
  "items_rows [] = []"
| "items_rows (x # xs) = item_rows x @ items_rows xs"
| "item_rows (AddChildInput p d) = []"
| "item_rows (Row r b) = r # block_rows b"
| "item_rows EmptyHint = []"
| "block_rows None = []"
| "block_rows (Some LoadingIndicator) = []"
| "block_rows (Some (ChildList xs)) = items_rows xs"

fun items_inputs :: "tv_item list \<Rightarrow> node_id list"
  and item_inputs :: "tv_item \<Rightarrow> node_id list"
  and block_inputs :: "tv_block option \<Rightarrow> node_id list" where
  "items_inputs [] = []"
| "items_inputs (x # xs) = item_inputs x @ items_inputs xs"
| "item_inputs (AddChildInput p d) = [p]"
| "item_inputs (Row r b) = block_inputs b"
| "item_inputs EmptyHint = []"
| "block_inputs None = []"
| "block_inputs (Some LoadingIndicator) = []"
| "block_inputs (Some (ChildList xs)) = items_inputs xs"

text \<open>Reference: the nodes the spec says are on screen, in preorder: a node is shown
  when every ancestor is expanded and not loading.\<close>

fun visible_nodes :: "tv_state \<Rightarrow> node list \<Rightarrow> node list" where
  "visible_nodes s [] = []"
| "visible_nodes s (Node j nm None lz # ns) = Node j nm None lz # visible_nodes s ns"
| "visible_nodes s (Node j nm (Some cs) lz # ns) =
     Node j nm (Some cs) lz # (if j \<in> expanded s \<and> j \<notin> loading s then visible_nodes s cs else [])
     @ visible_nodes s ns"

text \<open>The whole component's tree (line 408).\<close>

definition render_tree :: "tv_state \<Rightarrow> tv_item list" where
  "render_tree s = render_list s (tv_nodes s) None 0"

section \<open>The row component\<close>

text \<open>\<open>avatarColor(depth)\<close> (\<open>TreeNodeRow.tsx\<close> lines 25--28).\<close>

definition avatar_palette :: "string list" where
  "avatar_palette = [''#3B82F6'', ''#22C55E'', ''#A855F7'', ''#F97316'', ''#14B8A6'', ''#EF4444'']"

definition avatar_color :: "nat \<Rightarrow> string" where
  "avatar_color depth = avatar_palette ! (depth mod length avatar_palette)"

text \<open>\<open>hasChevron\<close> (line 50): the node is lazy or has a non-empty child list.\<close>

definition has_chevron :: "node \<Rightarrow> bool" where
  "has_chevron n \<longleftrightarrow> lazy n = Some True \<or> (case children n of Some cs \<Rightarrow> length cs > 0 | None \<Rightarrow> False)"

text \<open>\<open>letter\<close> (line 51): the first character of the trimmed name, or \<open>?\<close>,
  upper-cased.\<close>

definition row_letter :: "node \<Rightarrow> string" where
  "row_letter n = js_to_upper (case trim (name n) of [] \<Rightarrow> ''?'' | c # _ \<Rightarrow> [c])"

definition drop_position_name :: "drop_position \<Rightarrow> string" where
  "drop_position_name p = (case p of Before \<Rightarrow> ''before'' | After \<Rightarrow> ''after'' | Inside \<Rightarrow> ''inside'')"

text \<open>The row's class list (lines 60--66).\<close>

definition row_class :: "row_props \<Rightarrow> string" where
  "row_class r =
     js_join '' '' (filter (\<lambda>c. c \<noteq> [])
       [''tv-row'',
        (case rp_drop_hint r of Some h \<Rightarrow> ''tv-row--drop-'' @ drop_position_name h | None \<Rightarrow> []),
        (if rp_loading r then ''tv-row--loading'' else [])])"

text \<open>What the expander button shows (line 81): nothing, \<open>+\<close> or the minus sign.\<close>

datatype expander_glyph = GlyphNone | GlyphExpand | GlyphCollapse

datatype title_dom = TitleInput string | TitleName string

text \<open>The rendered row (lines 58--120): the row's class, the expander's label,
  whether it is disabled and its glyph, the avatar's colour and letter, and the
  title, an input holding the draft while editing and the name otherwise.  The three
  action buttons are the same on every row.\<close>

record row_dom =
  rd_class :: string
  rd_expander_label :: string
  rd_expander_disabled :: bool
  rd_expander_glyph :: expander_glyph
  rd_avatar_color :: string
  rd_avatar_letter :: string
  rd_title :: title_dom

definition row_view :: "row_props \<Rightarrow> row_dom" where
  "row_view r =
     \<lparr>rd_class = row_class r,
      rd_expander_label = (if rp_expanded r then ''Collapse node'' else ''Expand node''),
      rd_expander_disabled = (\<not> has_chevron (rp_node r)),
      rd_expander_glyph = (if has_chevron (rp_node r) then (if rp_expanded r then GlyphCollapse else GlyphExpand)
                           else GlyphNone),
      rd_avatar_color = avatar_color (rp_depth r),
      rd_avatar_letter = row_letter (rp_node r),
      rd_title = (if rp_editing r then TitleInput (rp_edit_draft r) else TitleName (name (rp_node r)))\<rparr>"

text \<open>What the user does on a row, and the controller events the row's handlers
  (lines 53--56, 68--116) and the callbacks \<open>renderList\<close> passes it (lines
  281--305) turn that into.  A disabled expander receives no click; the title input
  exists only while editing.  Drag payloads and geometry come from the browser.\<close>

datatype row_action =
    ClickExpander
  | DoubleClick nat
  | ClickAddChild
  | ClickEditName
  | ClickDelete bool
  | TitleChange string
  | TitleKey string
  | TitleBlur
  | RowDragStartA
  | RowDragEndA
  | RowDragOverA real real real
  | RowDropA string string real real real

fun row_events :: "row_props \<Rightarrow> row_action \<Rightarrow> tv_event list" where
  "row_events r ClickExpander = (if has_chevron (rp_node r) then [ToggleExpand (nid (rp_node r))] else [])"
| "row_events r (DoubleClick detail) = (if detail > 1 then [StartEdit (nid (rp_node r))] else [])"
| "row_events r ClickAddChild = [BeginAddChild (nid (rp_node r))]"
| "row_events r ClickEditName = [StartEdit (nid (rp_node r))]"
| "row_events r (ClickDelete ok) = [Remove (nid (rp_node r)) ok]"
| "row_events r (TitleChange v) = (if rp_editing r then [ChangeEditDraft v] else [])"
| "row_events r (TitleKey k) =
     (if rp_editing r then (if k = ''Enter'' then [CommitEdit] else []) @ (if k = ''Escape'' then [CancelEdit] else [])
      else [])"
| "row_events r TitleBlur = (if rp_editing r then [CommitEdit] else [])"
| "row_events r RowDragStartA = [DragStart (nid (rp_node r))]"
| "row_events r RowDragEndA = [DragEnd]"
| "row_events r (RowDragOverA y t h) = [RowDragOver (nid (rp_node r)) y t h]"
| "row_events r (RowDropA a b y t h) = [DropOnNode (nid (rp_node r)) a b y t h]"

text \<open>The add-child input of \<open>renderList\<close> (lines 240--263) and the list's own
  drag handlers (lines 230--236); \<open>fresh\<close> is what \<open>createId()\<close> returns if the
  commit adds a node.\<close>

datatype input_action = InputChange string | InputKey string | InputBlur | ClickAdd | ClickCancel

fun add_input_events :: "node_id \<Rightarrow> input_action \<Rightarrow> tv_event list" where
  "add_input_events fresh (InputChange v) = [ChangeChildDraft v]"
| "add_input_events fresh (InputKey k) =
     (if k = ''Enter'' then [CommitAddChild fresh] else []) @ (if k = ''Escape'' then [CancelAddChild] else [])"
| "add_input_events fresh InputBlur = [CommitAddChild fresh]"
| "add_input_events fresh ClickAdd = [CommitAddChild fresh]"
| "add_input_events fresh ClickCancel = [CancelAddChild]"

datatype list_action = ListOverA | ListLeaveA | ListDropA string string

fun list_events :: "node_id option \<Rightarrow> list_action \<Rightarrow> tv_event list" where
  "list_events p ListOverA = [ListDragOver p]"
| "list_events p ListLeaveA = [ListDragLeave p]"
| "list_events p (ListDropA a b) = [DropOnList p a b]"

section \<open>The component's own markup\<close>

text \<open>What \<open>TreeView\<close> returns (\<open>TreeView.tsx\<close> lines 347--411): the toolbar
  with its \<open>Add root\<close> button, the root input with its draft while
  \<open>isAddingRoot\<close>, and the canvas, whose class marks an active list drop, around
  \<open>renderList(nodes, null, 0)\<close>.\<close>

record tv_dom =
  td_root_input :: "string option"
  td_canvas_class :: string
  td_tree :: "tv_item list"

definition canvas_class :: "tv_state \<Rightarrow> string" where
  "canvas_class s =
     js_join '' '' (filter (\<lambda>c. c \<noteq> []) [''tv-canvas'', (if active_list_drop s \<noteq> None then ''tv-canvas--drop'' else [])])"

definition tv_view :: "tv_state \<Rightarrow> tv_dom" where
  "tv_view s =
     \<lparr>td_root_input = (if is_adding_root s then Some (root_draft s) else None),
      td_canvas_class = canvas_class s, td_tree = render_tree s\<rparr>"

text \<open>The toolbar's events (lines 355--403): the \<open>Add root\<close> button, and, while the
  root input is shown, typing, \<open>Enter\<close>, \<open>Escape\<close> and its \<open>Add\<close> button;
  \<open>fresh\<close> is what \<open>createId()\<close> returns if a node is added.\<close>

datatype toolbar_action = ClickAddRoot | RootInput string | RootKey string | ClickRootAdd

fun toolbar_events :: "tv_state \<Rightarrow> node_id \<Rightarrow> toolbar_action \<Rightarrow> tv_event list" where
  "toolbar_events s fresh ClickAddRoot = [ToggleAddRoot]"
| "toolbar_events s fresh (RootInput v) = (if is_adding_root s then [ChangeRootDraft v] else [])"
| "toolbar_events s fresh (RootKey k) =
     (if is_adding_root s
      then (if k = ''Enter'' then [CommitAddRoot fresh] else []) @ (if k = ''Escape'' then [CancelAddRoot] else [])
      else [])"
| "toolbar_events s fresh ClickRootAdd = (if is_adding_root s then [CommitAddRoot fresh] else [])"

section \<open>Lemmas\<close>

lemma visible_nodes_Cons:
  "visible_nodes s (n # ns) =
     n # (if nid n \<in> expanded s \<and> nid n \<notin> loading s then visible_nodes s (children_list n) else []) @ visible_nodes s ns"
  by (cases n; cases "children n") auto

lemma items_append [simp]:
  "items_rows (xs @ ys) = items_rows xs @ items_rows ys"
  "items_inputs (xs @ ys) = items_inputs xs @ items_inputs ys"
  by (induction xs) auto

lemma visible_nodes_append [simp]: "visible_nodes s (xs @ ys) = visible_nodes s xs @ visible_nodes s ys"
  by (induction xs) (simp_all add: visible_nodes_Cons)

lemma visible_nodes_single: "visible_nodes s (n # ns) = visible_nodes s [n] @ visible_nodes s ns"
  using visible_nodes_append [of s "[n]" ns] by simp

lemma subset_mset_add_mset_right: "A \<subseteq># B \<Longrightarrow> A \<subseteq># add_mset x B"
  by (metis add_mset_add_single mset_subset_eq_add_left subset_mset.order_trans)

lemma add_child_slot_simps [simp]:
  "items_rows (add_child_slot s p) = []"
  "items_inputs (add_child_slot s p) = (case p of Some q \<Rightarrow> if adding_child_to_id s = Some q then [q] else [] | None \<Rightarrow> [])"
  by (simp_all add: add_child_slot_def split: option.split)

lemma render_list_rows:
  "map rp_node (items_rows (render_list s list p d)) = visible_nodes s list"
  "map rp_node (items_rows (render_rows s ns d)) = visible_nodes s ns"
  "map rp_node (item_rows (render_row s n d)) = visible_nodes s [n]"
  by (induction s list p d and s ns d and s n d rule: render_list_render_rows_render_row.induct)
     (auto simp: row_props_of_def intro: visible_nodes_single [symmetric])

lemma render_list_editing:
  "r \<in> set (items_rows (render_list s list p d)) \<Longrightarrow> rp_editing r = (editing_id s = Some (nid (rp_node r)))"
  "r \<in> set (items_rows (render_rows s ns d)) \<Longrightarrow> rp_editing r = (editing_id s = Some (nid (rp_node r)))"
  "r \<in> set (item_rows (render_row s n d)) \<Longrightarrow> rp_editing r = (editing_id s = Some (nid (rp_node r)))"
  by (induction s list p d and s ns d and s n d rule: render_list_render_rows_render_row.induct)
     (auto simp: row_props_of_def split: if_splits)

lemma render_list_inputs:
  "q \<in> set (items_inputs (render_list s list p d)) \<Longrightarrow> adding_child_to_id s = Some q"
  "q \<in> set (items_inputs (render_rows s ns d)) \<Longrightarrow> adding_child_to_id s = Some q"
  "q \<in> set (item_inputs (render_row s n d)) \<Longrightarrow> adding_child_to_id s = Some q"
  by (induction s list p d and s ns d and s n d rule: render_list_render_rows_render_row.induct)
     (auto split: if_splits option.splits)

lemma render_list_inputs_mset:
  "mset (items_inputs (render_list s list p d)) \<subseteq># mset (case p of None \<Rightarrow> [] | Some q \<Rightarrow> [q]) + mset (map nid (visible_nodes s list))"
  "mset (items_inputs (render_rows s ns d)) \<subseteq># mset (map nid (visible_nodes s ns))"
  "mset (item_inputs (render_row s n d)) \<subseteq># mset (map nid (visible_nodes s [n]))"
proof (induction s list p d and s ns d and s n d rule: render_list_render_rows_render_row.induct)
  case (3 s n ns depth)
  then show ?case by (subst visible_nodes_single) (auto intro: subset_mset.add_mono)
qed (auto split: option.splits intro: subset_mset.add_mono mset_subset_eq_add_right subset_mset_add_mset_right)

lemma mset_visible_nodes: "mset (visible_nodes s ns) \<subseteq># mset (forest_nodes ns)"
proof (induction ns rule: forest_nodes.induct)
  case (3 j nm cs lz ns)
  have "mset (if j \<in> expanded s \<and> j \<notin> loading s then visible_nodes s cs else []) \<subseteq># mset (forest_nodes cs)"
    using "3.IH" by auto
  with "3.IH"(2) show ?case by (simp add: subset_mset.add_mono)
qed simp_all


lemma render_row_eq:
  "render_row s n d = Row (row_props_of s n d)
     (if nid n \<in> expanded s then Some (if nid n \<in> loading s then LoadingIndicator
        else ChildList (render_list s (children_list n) (Some (nid n)) (Suc d))) else None)"
  by (cases n; cases "children n") (simp_all add: children_list_def)

text \<open>A \<open>dblclick\<close> event has \<open>detail\<close> at least 2 (the click count), so the guard
  of \<open>onRowDoubleClick\<close> (line 55) never blocks: it does not tell drags apart.\<close>

lemma row_double_click_starts_edit: "2 \<le> detail \<Longrightarrow> row_events r (DoubleClick detail) = [StartEdit (nid (rp_node r))]"
  by simp

text \<open>The root list passes \<open>parentId = null\<close> to \<open>setActiveListDrop\<close>, which is also
  the "no list" value, so dragging over the root list never marks the canvas.\<close>

lemma root_list_drop_unmarked:
  "canvas_class (tv_step s (ListDragOver None)) = ''tv-canvas''"
  by (simp add: canvas_class_def list_drag_over_def)

section \<open>Properties\<close>

text \<open>Claim C10 (functional). Lazy-load-once is violated for every collapsed lazy node with unset children: its row's expander stays enabled while the node is loading, and expand, collapse and expand again append two loader calls for the node to the pending calls while the forest is unchanged.\<close>

lemma repeated_expand_double_load:
  assumes f: "find_node (tv_nodes s) i = Some n" and lz: "lazy n = Some True" and un: "children n = None"
    and col: "i \<notin> expanded s"
  shows "row_events (row_props_of (tv_run s [ToggleExpand i]) n d) ClickExpander = [ToggleExpand i] \<and>
         i \<in> loading (tv_run s [ToggleExpand i, ToggleExpand i]) \<and>
         row_events (row_props_of (tv_run s [ToggleExpand i, ToggleExpand i]) n d) ClickExpander = [ToggleExpand i] \<and>
         pending_loads (tv_run s [ToggleExpand i, ToggleExpand i, ToggleExpand i]) = pending_loads s @ [i, i] \<and>
         tv_nodes (tv_run s [ToggleExpand i, ToggleExpand i, ToggleExpand i]) = tv_nodes s"
proof -
  have i: "nid n = i" using find_node_SomeD [OF f] by simp
  show ?thesis using f lz un col i
    by (simp add: tv_run_def toggle_expand_def Let_def row_props_of_def has_chevron_def)
qed

lemma repeated_expand_double_load_witness:
  "pending_loads (tv_run ex_lazy_tv [ToggleExpand ''A'', ToggleExpand ''A'', ToggleExpand ''A'']) = [''A'', ''A'']"
  using repeated_expand_double_load [of ex_lazy_tv "''A''" "Node ''A'' ''A'' None (Some True)" 0]
  by (simp add: tv_init_def tv_nodes_def)

text \<open>Claim C31 (functional). Rendering shows exactly the visible nodes: the rows of the rendered tree, in document order, are the nodes of the forest in preorder whose ancestors are all expanded and not loading.\<close>

lemma render_tree_rows: "map rp_node (items_rows (render_tree s)) = visible_nodes s (tv_nodes s)"
  unfolding render_tree_def by (rule render_list_rows(1))

text \<open>Claim C32 (type). The rendered tree is a valid React list: when the controller invariant holds, the rows' keys (node ids) are distinct, at most one row is in rename mode and at most one add-child input appears.\<close>

lemma render_keys_unique:
  assumes inv: "tv_inv s"
  shows "distinct (map (nid \<circ> rp_node) (items_rows (render_tree s))) \<and>
         length (filter rp_editing (items_rows (render_tree s))) \<le> 1 \<and>
         length (items_inputs (render_tree s)) \<le> 1"
proof -
  let ?rows = "items_rows (render_tree s)"
  have ok: "distinct (map nid (forest_nodes (tv_nodes s)))" using inv by (simp add: tv_inv_def ids_ok_def forest_ids_def)
  have "mset (map nid (visible_nodes s (tv_nodes s))) \<subseteq># mset (map nid (forest_nodes (tv_nodes s)))"
    using mset_visible_nodes [of s "tv_nodes s"] by (simp add: image_mset_subseteq_mono)
  then have dv: "distinct (map nid (visible_nodes s (tv_nodes s)))" using ok by (rule distinct_subset_mset)
  then have d: "distinct (map (nid \<circ> rp_node) ?rows)" by (simp add: render_tree_rows [symmetric])
  have ed: "rp_editing r = (editing_id s = Some (nid (rp_node r)))" if "r \<in> set ?rows" for r
    using that unfolding render_tree_def by (rule render_list_editing(1))
  have "length (map (nid \<circ> rp_node) (filter rp_editing ?rows)) \<le> 1"
  proof (rule distinct_all_eq_length)
    show "distinct (map (nid \<circ> rp_node) (filter rp_editing ?rows))" using d by (simp add: distinct_map_filter)
    show "set (map (nid \<circ> rp_node) (filter rp_editing ?rows)) \<subseteq> {the (editing_id s)}" using ed by auto
  qed
  moreover have "length (items_inputs (render_tree s)) \<le> 1"
  proof (rule distinct_all_eq_length)
    have "mset (items_inputs (render_tree s)) \<subseteq># mset (map nid (visible_nodes s (tv_nodes s)))"
      using render_list_inputs_mset(1) [of s "tv_nodes s" None 0] by (simp add: render_tree_def)
    then show "distinct (items_inputs (render_tree s))" using dv by (rule distinct_subset_mset)
    show "set (items_inputs (render_tree s)) \<subseteq> {the (adding_child_to_id s)}"
      using render_list_inputs(1) [of _ s "tv_nodes s" None 0] by (auto simp: render_tree_def)
  qed
  ultimately show ?thesis using d by simp
qed

lemma render_keys_unique_witness:
  "tv_inv ex_nested_tv \<and>
   distinct (map (nid \<circ> rp_node) (items_rows (render_tree ex_nested_tv))) \<and>
   length (items_inputs (render_tree ex_nested_tv)) \<le> 1"
proof -
  have i: "tv_inv ex_nested_tv"
    by (rule tv_inv_init) (simp_all add: ids_ok_def lazy_ok_def)
  show ?thesis using render_keys_unique [OF i] i by simp
qed

text \<open>Claim C33 (functional). From click to screen: on a collapsed lazy node with unset children the row's expander is enabled and its click raises \<open>toggleExpand\<close>; the loader call is issued, and the re-rendered row is marked loading, shows the collapse glyph, and holds the loading indicator in place of its children.\<close>

lemma expander_click_loads:
  assumes f: "find_node (tv_nodes s) i = Some n" and lz: "lazy n = Some True" and un: "children n = None"
    and col: "i \<notin> expanded s"
  shows "row_events (row_props_of s n d) ClickExpander = [ToggleExpand i] \<and>
         pending_loads (tv_run s [ToggleExpand i]) = pending_loads s @ [i] \<and>
         render_row (tv_run s [ToggleExpand i]) n d =
           Row (row_props_of (tv_run s [ToggleExpand i]) n d) (Some LoadingIndicator) \<and>
         rd_expander_glyph (row_view (row_props_of (tv_run s [ToggleExpand i]) n d)) = GlyphCollapse \<and>
         rp_loading (row_props_of (tv_run s [ToggleExpand i]) n d)"
proof -
  have i: "nid n = i" using find_node_SomeD [OF f] by simp
  have t: "toggle_expand i s = s\<lparr>expanded := insert i (expanded s), loading := insert i (loading s),
             pending_loads := pending_loads s @ [i]\<rparr>"
    using f lz un col by (simp add: tv_run_def toggle_expand_def Let_def)
  show ?thesis using i lz un
    by (simp add: tv_run_def t render_row_eq row_view_def has_chevron_def row_props_of_def row_class_def)
qed

lemma expander_click_loads_witness:
  "row_events (row_props_of ex_lazy_tv (Node ''A'' ''A'' None (Some True)) 0) ClickExpander = [ToggleExpand ''A''] \<and>
   render_row (tv_run ex_lazy_tv [ToggleExpand ''A'']) (Node ''A'' ''A'' None (Some True)) 0 =
     Row (row_props_of (tv_run ex_lazy_tv [ToggleExpand ''A'']) (Node ''A'' ''A'' None (Some True)) 0) (Some LoadingIndicator)"
  using expander_click_loads [of ex_lazy_tv "''A''" "Node ''A'' ''A'' None (Some True)" 0]
  by (simp add: tv_init_def tv_nodes_def)

text \<open>Claim C34 (functional). Adding a root through the toolbar: \<open>Add root\<close> opens an empty root input and closes any add-child input; typing a name and pressing \<open>Enter\<close> appends a root with the trimmed name and the fresh id and hides the input; a name that trims to empty changes nothing and keeps the input open.\<close>

lemma root_add_flow:
  assumes closed: "\<not> is_adding_root s"
  shows "toolbar_events s fresh ClickAddRoot = [ToggleAddRoot] \<and>
    td_root_input (tv_view (tv_step s ToggleAddRoot)) = Some [] \<and>
    adding_child_to_id (tv_step s ToggleAddRoot) = None \<and>
    toolbar_events (tv_step s ToggleAddRoot) fresh (RootInput v) = [ChangeRootDraft v] \<and>
    toolbar_events (tv_run s [ToggleAddRoot, ChangeRootDraft v]) fresh (RootKey ''Enter'') = [CommitAddRoot fresh] \<and>
    tv_nodes (tv_run s [ToggleAddRoot, ChangeRootDraft v, CommitAddRoot fresh]) =
      (if trim v = [] then tv_nodes s else tv_nodes s @ [Node fresh (trim v) None None]) \<and>
    td_root_input (tv_view (tv_run s [ToggleAddRoot, ChangeRootDraft v, CommitAddRoot fresh])) =
      (if trim v = [] then Some v else None)"
  using closed
  by (simp add: tv_run_def tv_view_def toggle_add_root_def change_root_draft_def commit_add_root_def Let_def)

lemma root_add_flow_witness:
  "\<not> is_adding_root ex_lazy_tv \<and>
   tv_nodes (tv_run ex_lazy_tv [ToggleAddRoot, ChangeRootDraft '' R '', CommitAddRoot ''r1'']) =
     [Node ''A'' ''A'' None (Some True), Node ''r1'' ''R'' None None]"
  using root_add_flow [of ex_lazy_tv "''r1''" "'' R ''"]
  by (simp add: tv_init_def tv_nodes_def trim_def js_space_def)

end
