(* ===== verification/Kanban.thy ===== *)
theory Kanban
  imports Tree_Prelude
begin

text \<open>
  The Kanban board \<open>src/KanbanBoard/src/KanbanBoard\<close>: the board state of
  \<open>types.ts\<close>, the handlers of \<open>KanbanBoard.tsx\<close> (add, delete, rename a card,
  and the dnd-kit drag start and drag end, which moves a card to another column or
  reorders it within its column), and the title editor of \<open>Card.tsx\<close> (its markup and event handling are in
  \<open>Kanban_View\<close>).  A card's
  id is \<open>createId('c')\<close>, a string starting with \<open>c-\<close>, so it is never a column id;
  the drop target of dnd-kit is a card id or a column id, told apart by
  \<open>isColumnId\<close>.
\<close>

section \<open>State\<close>

text \<open>\<open>ColumnId\<close> (\<open>types.ts\<close> line 1) and its string form.\<close>

datatype column_id = Todo | InProgress | Done

primrec column_key :: "column_id \<Rightarrow> string" where
  "column_key Todo = ''todo''"
| "column_key InProgress = ''inProgress''"
| "column_key Done = ''done''"

text \<open>The keys of \<open>columnCardIds\<close> in their insertion order (\<open>mockData.ts\<close>), the
  order of \<open>Object.keys\<close>.\<close>

definition all_columns :: "column_id list" where
  "all_columns = [Todo, InProgress, Done]"

text \<open>\<open>KanbanCard\<close>: \<open>id\<close> is \<open>None\<close> for an object built without an \<open>id\<close>
  property (a spread of \<open>undefined\<close>).\<close>

record kanban_card =
  card_id :: "string option"
  card_title :: string

record kanban_column =
  col_id :: column_id
  col_title :: string

record kanban_state =
  columns :: "kanban_column list"
  cards_by_id :: "string \<rightharpoonup> kanban_card"
  column_card_ids :: "column_id \<Rightarrow> string list"

text \<open>The component's hooks (\<open>KanbanBoard.tsx\<close> lines 44--46).\<close>

record kb_ui =
  kb_state :: kanban_state
  active_card_id :: "string option"
  auto_edit_card_id :: "string option"

section \<open>Helpers\<close>

text \<open>\<open>createId(prefix)\<close> (lines 22--28); \<open>rnd\<close> is the random part.\<close>

definition create_id :: "string \<Rightarrow> string \<Rightarrow> string" where
  "create_id prefix rnd = prefix @ ''-'' @ rnd"

text \<open>\<open>isColumnId\<close> (lines 30--32), returning the column it names.\<close>

definition parse_column_id :: "string \<Rightarrow> column_id option" where
  "parse_column_id v =
     (if v = ''todo'' then Some Todo else if v = ''inProgress'' then Some InProgress
      else if v = ''done'' then Some Done else None)"

text \<open>\<open>findContainer\<close> (lines 34--41).  \<open>state.columnCardIds[id]\<close> is an array,
  which is truthy even when empty.\<close>

definition find_container :: "kanban_state \<Rightarrow> string \<Rightarrow> column_id option" where
  "find_container st i =
     (case parse_column_id i of
        Some c \<Rightarrow> Some c
      | None \<Rightarrow> find (\<lambda>c. i \<in> set (column_card_ids st c)) all_columns)"

text \<open>\<open>arrayMove(array, from, to)\<close> of \<open>@dnd-kit/sortable\<close>: take the element at
  \<open>from\<close> out and splice it in at \<open>to\<close> (both non-negative here).\<close>

definition array_move :: "'a list \<Rightarrow> nat \<Rightarrow> nat \<Rightarrow> 'a list" where
  "array_move xs from to = splice_in to (xs ! from) (take from xs @ drop (Suc from) xs)"

section \<open>Handlers\<close>

text \<open>\<open>addCard\<close> (lines 58--69).\<close>

definition add_card :: "string \<Rightarrow> column_id \<Rightarrow> kb_ui \<Rightarrow> kb_ui" where
  "add_card rnd col u =
     (let i = create_id ''c'' rnd; prev = kb_state u in
      u\<lparr>kb_state := prev\<lparr>cards_by_id := (cards_by_id prev)(i \<mapsto> \<lparr>card_id = Some i, card_title = ''New card''\<rparr>),
                         column_card_ids := (column_card_ids prev)(col := column_card_ids prev col @ [i])\<rparr>,
        auto_edit_card_id := Some i\<rparr>)"

text \<open>\<open>deleteCard\<close> (lines 71--88).\<close>

definition delete_card :: "string \<Rightarrow> kanban_state \<Rightarrow> kanban_state" where
  "delete_card i prev =
     (case find_container prev i of
        None \<Rightarrow> prev
      | Some c \<Rightarrow>
          prev\<lparr>cards_by_id := (cards_by_id prev)(i := None),
               column_card_ids := (column_card_ids prev)(c := filter (\<lambda>x. x \<noteq> i) (column_card_ids prev c))\<rparr>)"

text \<open>\<open>updateCardTitle\<close> (lines 90--98): \<open>{ ...prev.cardsById[cardId], title }\<close>.\<close>

definition update_card_title :: "string \<Rightarrow> string \<Rightarrow> kanban_state \<Rightarrow> kanban_state" where
  "update_card_title i t prev =
     prev\<lparr>cards_by_id := (cards_by_id prev)(i \<mapsto>
        (case cards_by_id prev i of
           Some c \<Rightarrow> c\<lparr>card_title := t\<rparr>
         | None \<Rightarrow> \<lparr>card_id = None, card_title = t\<rparr>))\<rparr>"

text \<open>\<open>moveBetweenColumns\<close> (lines 100--130).\<close>

definition move_between_columns :: "kanban_state \<Rightarrow> string \<Rightarrow> string \<Rightarrow> kanban_state" where
  "move_between_columns prev active_id over_id =
     (case (find_container prev active_id, find_container prev over_id) of
        (Some ac, Some oc) \<Rightarrow>
          (if ac = oc then prev
           else
             let source = column_card_ids prev ac;
                 dest = column_card_ids prev oc;
                 source_index = js_index_of source active_id;
                 without = filter (\<lambda>x. x \<noteq> active_id) source;
                 insert_index = (if parse_column_id over_id \<noteq> None then int (length dest)
                                 else max 0 (js_index_of dest over_id));
                 next_dest = take (nat insert_index) dest @ active_id # drop (nat insert_index) dest
             in if source_index = -1 then prev
                else prev\<lparr>column_card_ids := (column_card_ids prev)(ac := without, oc := next_dest)\<rparr>)
      | _ \<Rightarrow> prev)"

text \<open>\<open>handleDragStart\<close> (lines 132--136).\<close>

definition handle_drag_start :: "string \<Rightarrow> kb_ui \<Rightarrow> kb_ui" where
  "handle_drag_start a u = u\<lparr>active_card_id := Some a, auto_edit_card_id := None\<rparr>"

text \<open>The state update of \<open>handleDragEnd\<close> (lines 146--167).\<close>

definition drag_end_update :: "kanban_state \<Rightarrow> string \<Rightarrow> string \<Rightarrow> kanban_state" where
  "drag_end_update prev active_id over_id =
     (case (find_container prev active_id, find_container prev over_id) of
        (Some ac, Some oc) \<Rightarrow>
          (if ac \<noteq> oc then move_between_columns prev active_id over_id
           else
             let items = column_card_ids prev ac;
                 old_index = js_index_of items active_id;
                 new_index = (if parse_column_id over_id \<noteq> None then int (length items) - 1
                              else js_index_of items over_id)
             in if old_index = -1 \<or> new_index = -1 \<or> old_index = new_index then prev
                else prev\<lparr>column_card_ids := (column_card_ids prev)
                            (ac := array_move items (nat old_index) (nat new_index))\<rparr>)
      | _ \<Rightarrow> prev)"

text \<open>\<open>handleDragEnd\<close> (lines 138--168); \<open>over\<close> is \<open>None\<close> for a drop outside
  every droppable.\<close>

definition handle_drag_end :: "string \<Rightarrow> string option \<Rightarrow> kb_ui \<Rightarrow> kb_ui" where
  "handle_drag_end active_id over u =
     (let u1 = u\<lparr>active_card_id := None\<rparr> in
      case over of
        None \<Rightarrow> u1
      | Some over_id \<Rightarrow> u1\<lparr>kb_state := drag_end_update (kb_state u1) active_id over_id\<rparr>)"


section \<open>The card's title editor\<close>

text \<open>\<open>Card.tsx\<close>: the editor's hooks (lines 14--15), initialised from the
  \<open>autoEdit\<close> prop and the card's title.\<close>

record card_ui =
  is_editing :: bool
  draft :: string

definition card_mount :: "kanban_card \<Rightarrow> bool \<Rightarrow> card_ui" where
  "card_mount c auto_edit = \<lparr>is_editing = auto_edit, draft = card_title c\<rparr>"

text \<open>\<open>commit\<close> (lines 47--56): the new editor state, and the call of
  \<open>onUpdateTitle(card.id, next)\<close> if one is made.\<close>

definition card_commit :: "kanban_card \<Rightarrow> card_ui \<Rightarrow> card_ui \<times> (string option \<times> string) option" where
  "card_commit c ui =
     (let next = trim (draft ui) in
      if length next = 0 then (ui\<lparr>draft := card_title c, is_editing := False\<rparr>, None)
      else (ui\<lparr>is_editing := False\<rparr>, if next \<noteq> card_title c then Some (card_id c, next) else None))"

text \<open>\<open>cancel\<close> (lines 58--61), the textarea's \<open>onChange\<close> (line 72), the title's
  \<open>onDoubleClick\<close> (line 86), and the effect that resets the draft when the title
  changes (lines 43--45).\<close>

definition card_cancel :: "kanban_card \<Rightarrow> card_ui \<Rightarrow> card_ui" where
  "card_cancel c ui = ui\<lparr>draft := card_title c, is_editing := False\<rparr>"

definition card_change_draft :: "string \<Rightarrow> card_ui \<Rightarrow> card_ui" where
  "card_change_draft d ui = ui\<lparr>draft := d\<rparr>"

definition card_start_edit :: "card_ui \<Rightarrow> card_ui" where
  "card_start_edit ui = ui\<lparr>is_editing := True\<rparr>"

definition card_title_sync :: "kanban_card \<Rightarrow> card_ui \<Rightarrow> card_ui" where
  "card_title_sync c ui = ui\<lparr>draft := card_title c\<rparr>"

text \<open>The board's \<open>onUpdateTitle\<close> callback applied to a call of \<open>commit\<close>.  A
  missing id is the property key \<open>"undefined"\<close> in JavaScript.\<close>

definition apply_title_call :: "(string option \<times> string) option \<Rightarrow> kanban_state \<Rightarrow> kanban_state" where
  "apply_title_call call st =
     (case call of
        None \<Rightarrow> st
      | Some (cid, t) \<Rightarrow> update_card_title (case cid of Some i \<Rightarrow> i | None \<Rightarrow> ''undefined'') t st)"

section \<open>Events\<close>

text \<open>The board's handlers as events: \<open>AddCard\<close> carries the random part of the
  new id, \<open>DragEnd\<close> the active id and the id under the pointer, if any.\<close>

datatype kb_event =
    AddCard column_id string
  | DeleteCard string
  | UpdateCardTitle string string
  | DragStart string
  | DragEnd string "string option"

fun kb_step :: "kb_ui \<Rightarrow> kb_event \<Rightarrow> kb_ui" where
  "kb_step u (AddCard col rnd) = add_card rnd col u"
| "kb_step u (DeleteCard i) = u\<lparr>kb_state := delete_card i (kb_state u)\<rparr>"
| "kb_step u (UpdateCardTitle i t) = u\<lparr>kb_state := update_card_title i t (kb_state u)\<rparr>"
| "kb_step u (DragStart a) = handle_drag_start a u"
| "kb_step u (DragEnd a over) = handle_drag_end a over u"

text \<open>All card ids on the board, column by column.\<close>

definition all_card_ids :: "kanban_state \<Rightarrow> string list" where
  "all_card_ids st = concat (map (column_card_ids st) all_columns)"

text \<open>What the environment guarantees: \<open>crypto.randomUUID\<close> gives an id not on the
  board, and \<open>onUpdateTitle\<close> is called by a rendered card, that is, for a card of a
  column.\<close>

fun kb_env_ok :: "kb_ui \<Rightarrow> kb_event \<Rightarrow> bool" where
  "kb_env_ok u (AddCard col rnd) \<longleftrightarrow> create_id ''c'' rnd \<notin> dom (cards_by_id (kb_state u))"
| "kb_env_ok u (UpdateCardTitle i t) \<longleftrightarrow> i \<in> set (all_card_ids (kb_state u))"
| "kb_env_ok u e \<longleftrightarrow> True"

inductive kb_reach :: "kb_ui \<Rightarrow> kb_ui \<Rightarrow> bool" where
  kb_reach_refl: "kb_reach u0 u0"
| kb_reach_step: "kb_reach u0 u \<Longrightarrow> kb_env_ok u e \<Longrightarrow> kb_reach u0 (kb_step u e)"

text \<open>A well-formed board: every card is in exactly one column, the cards map holds
  exactly the cards of the columns, each under its own id, and no card id is a
  column id.\<close>

definition kb_wf :: "kanban_state \<Rightarrow> bool" where
  "kb_wf st \<longleftrightarrow> distinct (all_card_ids st) \<and> dom (cards_by_id st) = set (all_card_ids st) \<and>
     (\<forall>i \<in> set (all_card_ids st). parse_column_id i = None \<and>
        map_option card_id (cards_by_id st i) = Some (Some i))"

text \<open>The initial board of \<open>mockData.ts\<close>.\<close>

definition initial_kanban_state :: kanban_state where
  "initial_kanban_state =
     \<lparr>columns = [\<lparr>col_id = Todo, col_title = ''Todo''\<rparr>, \<lparr>col_id = InProgress, col_title = ''In Progress''\<rparr>,
                 \<lparr>col_id = Done, col_title = ''Done''\<rparr>],
      cards_by_id = [''c-1'' \<mapsto> \<lparr>card_id = Some ''c-1'', card_title = ''Create initial project plan''\<rparr>,
                     ''c-2'' \<mapsto> \<lparr>card_id = Some ''c-2'', card_title = ''Design landing page''\<rparr>,
                     ''c-3'' \<mapsto> \<lparr>card_id = Some ''c-3'', card_title = ''Review codebase structure''\<rparr>,
                     ''c-4'' \<mapsto> \<lparr>card_id = Some ''c-4'', card_title = ''Implement authentication''\<rparr>,
                     ''c-5'' \<mapsto> \<lparr>card_id = Some ''c-5'', card_title = ''Set up database schema''\<rparr>,
                     ''c-6'' \<mapsto> \<lparr>card_id = Some ''c-6'', card_title = ''Fix navbar bugs''\<rparr>,
                     ''c-7'' \<mapsto> \<lparr>card_id = Some ''c-7'', card_title = ''Organize project repository''\<rparr>,
                     ''c-8'' \<mapsto> \<lparr>card_id = Some ''c-8'', card_title = ''Write API documentation''\<rparr>],
      column_card_ids = (\<lambda>c. case c of Todo \<Rightarrow> [''c-1'', ''c-2'', ''c-3''] | InProgress \<Rightarrow> [''c-4'', ''c-5'', ''c-6'']
                          | Done \<Rightarrow> [''c-7'', ''c-8''])\<rparr>"

text \<open>\<open>useState(initialState)\<close> and the other hooks' initial values.\<close>

definition kb_init :: "kanban_state \<Rightarrow> kb_ui" where
  "kb_init st = \<lparr>kb_state = st, active_card_id = None, auto_edit_card_id = None\<rparr>"

section \<open>Lemmas\<close>

subsection \<open>Columns and containers\<close>

lemma all_card_ids_cols:
  "all_card_ids st = column_card_ids st Todo @ column_card_ids st InProgress @ column_card_ids st Done"
  by (simp add: all_card_ids_def all_columns_def)

lemma mset_all_card_ids_upd:
  "column_card_ids st' = (column_card_ids st)(c := xs) \<Longrightarrow>
   mset (all_card_ids st') + mset (column_card_ids st c) = mset (all_card_ids st) + mset xs"
  by (cases c) (simp_all add: all_card_ids_cols)

lemma mset_all_card_ids_upd2:
  "ac \<noteq> oc \<Longrightarrow> column_card_ids st' = (column_card_ids st)(ac := xs, oc := ys) \<Longrightarrow>
   mset (all_card_ids st') + mset (column_card_ids st ac) + mset (column_card_ids st oc) =
   mset (all_card_ids st) + mset xs + mset ys"
  by (cases ac; cases oc) (simp_all add: all_card_ids_cols)

lemma parse_column_key [simp]: "parse_column_id (column_key c) = Some c"
  by (cases c) (simp_all add: parse_column_id_def)

lemma parse_create_id [simp]: "parse_column_id (create_id ''c'' rnd) = None"
  by (simp add: parse_column_id_def create_id_def)

lemma in_column_all [intro]: "i \<in> set (column_card_ids st c) \<Longrightarrow> i \<in> set (all_card_ids st)"
  by (cases c) (auto simp: all_card_ids_cols)

lemma find_container_wf:
  assumes wf: "kb_wf st" and i: "i \<in> set (column_card_ids st c)"
  shows "find_container st i = Some c"
proof -
  have "parse_column_id i = None" using wf i by (auto simp: kb_wf_def)
  moreover have "distinct (all_card_ids st)" using wf by (simp add: kb_wf_def)
  ultimately show ?thesis using i
    by (cases c) (auto simp: find_container_def all_columns_def all_card_ids_cols)
qed

lemma find_container_absent:
  "parse_column_id i = None \<Longrightarrow> i \<notin> set (all_card_ids st) \<Longrightarrow> find_container st i = None"
  by (auto simp: find_container_def all_columns_def all_card_ids_cols find_None_iff)

lemma find_container_SomeD:
  "find_container st i = Some c \<Longrightarrow> parse_column_id i = Some c \<or> i \<in> set (column_card_ids st c)"
  by (auto simp: find_container_def find_Some_iff split: option.splits)

lemma kb_wf_card_not_column:
  "kb_wf st \<Longrightarrow> parse_column_id i = Some c \<Longrightarrow> i \<notin> set (all_card_ids st)"
  by (auto simp: kb_wf_def)

lemma kb_wf_perm:
  assumes "kb_wf st" and "mset (all_card_ids st') = mset (all_card_ids st)" and "cards_by_id st' = cards_by_id st"
  shows "kb_wf st'"
proof -
  have "set (all_card_ids st') = set (all_card_ids st)" by (metis assms(2) set_mset_mset)
  moreover have "distinct (all_card_ids st')"
    using assms(1) mset_eq_imp_distinct_iff [OF assms(2)] by (simp add: kb_wf_def)
  ultimately show ?thesis using assms(1,3) by (simp add: kb_wf_def)
qed

subsection \<open>Drags keep the cards\<close>

lemma mset_filter_neq: "distinct xs \<Longrightarrow> a \<in> set xs \<Longrightarrow> mset (filter (\<lambda>x. x \<noteq> a) xs) + {#a#} = mset xs"
proof (induction xs)
  case (Cons y ys)
  show ?case
  proof (cases "y = a")
    case True
    with Cons.prems have "filter (\<lambda>x. x \<noteq> a) ys = ys" by (auto intro: filter_True)
    with True show ?thesis by simp
  next
    case False
    with Cons show ?thesis by simp
  qed
qed simp

lemma kb_wf_distinct_col: "kb_wf st \<Longrightarrow> distinct (column_card_ids st c)"
  by (cases c) (simp_all add: kb_wf_def all_card_ids_cols)

lemma array_move_mset: "from < length xs \<Longrightarrow> mset (array_move xs from to) = mset xs"
  unfolding array_move_def mset_splice_in
  by (metis id_take_nth_drop mset.simps(2) mset_append add_mset_add_single union_mset_add_mset_right)

lemma move_between_columns_mset:
  assumes wf: "kb_wf st"
  shows "mset (all_card_ids (move_between_columns st a b)) = mset (all_card_ids st) \<and>
         cards_by_id (move_between_columns st a b) = cards_by_id st"
proof (cases "\<exists>ac oc. find_container st a = Some ac \<and> find_container st b = Some oc \<and> ac \<noteq> oc \<and>
                a \<in> set (column_card_ids st ac)")
  case True
  then obtain ac oc where fa: "find_container st a = Some ac" and fb: "find_container st b = Some oc"
    and ne: "ac \<noteq> oc" and a: "a \<in> set (column_card_ids st ac)" by blast
  define k where "k = nat (if parse_column_id b \<noteq> None then int (length (column_card_ids st oc))
                             else max 0 (js_index_of (column_card_ids st oc) b))"
  let ?st' = "st\<lparr>column_card_ids := (column_card_ids st)
                 (ac := filter (\<lambda>x. x \<noteq> a) (column_card_ids st ac),
                  oc := splice_in k a (column_card_ids st oc))\<rparr>"
  have eq: "move_between_columns st a b = ?st'"
    using fa fb ne a by (simp add: move_between_columns_def Let_def k_def splice_in_def)
  have "mset (all_card_ids ?st') + mset (column_card_ids st ac) + mset (column_card_ids st oc) =
        mset (all_card_ids st) + mset (filter (\<lambda>x. x \<noteq> a) (column_card_ids st ac)) +
          mset (splice_in k a (column_card_ids st oc))"
    by (rule mset_all_card_ids_upd2 [OF ne]) simp
  also have "\<dots> = mset (all_card_ids st) + mset (column_card_ids st ac) + mset (column_card_ids st oc)"
    using mset_filter_neq [OF kb_wf_distinct_col [OF wf] a] by (simp add: add.commute add.left_commute)
  finally show ?thesis using eq by simp
next
  case False
  then have "move_between_columns st a b = st"
    by (auto simp: move_between_columns_def Let_def split: option.split)
  then show ?thesis by simp
qed

lemma drag_end_update_mset:
  assumes wf: "kb_wf st"
  shows "mset (all_card_ids (drag_end_update st a b)) = mset (all_card_ids st) \<and>
         cards_by_id (drag_end_update st a b) = cards_by_id st"
proof (cases "\<exists>c. find_container st a = Some c \<and> find_container st b = Some c \<and>
                a \<in> set (column_card_ids st c) \<and>
                js_index_of (column_card_ids st c) a \<noteq> (if parse_column_id b \<noteq> None
                  then int (length (column_card_ids st c)) - 1 else js_index_of (column_card_ids st c) b) \<and>
                (if parse_column_id b \<noteq> None then int (length (column_card_ids st c)) - 1
                 else js_index_of (column_card_ids st c) b) \<noteq> -1")
  case True
  then obtain c where fa: "find_container st a = Some c" and fb: "find_container st b = Some c"
    and a: "a \<in> set (column_card_ids st c)" by blast
  let ?xs = "column_card_ids st c"
  let ?ni = "if parse_column_id b \<noteq> None then int (length ?xs) - 1 else js_index_of ?xs b"
  let ?ys = "array_move ?xs (nat (js_index_of ?xs a)) (nat ?ni)"
  have eq: "drag_end_update st a b = st\<lparr>column_card_ids := (column_card_ids st)(c := ?ys)\<rparr>"
    using True fa fb a by (auto simp: drag_end_update_def Let_def)
  have "mset ?ys = mset ?xs" using js_index_of_nth [OF a] by (simp add: array_move_mset)
  moreover have "mset (all_card_ids (drag_end_update st a b)) + mset ?xs = mset (all_card_ids st) + mset ?ys"
    using eq by (intro mset_all_card_ids_upd) simp
  ultimately show ?thesis using eq by simp
next
  case False
  then have "drag_end_update st a b = move_between_columns st a b \<or> drag_end_update st a b = st"
    by (auto simp: drag_end_update_def Let_def split: option.split)
  then show ?thesis using move_between_columns_mset [OF wf] by auto
qed

lemma array_move_nth:
  "from < length xs \<Longrightarrow> to < length xs \<Longrightarrow> array_move xs from to ! to = xs ! from"
  unfolding array_move_def by (rule nth_splice_in) simp

subsection \<open>Every handler keeps the board well formed\<close>

lemma delete_card_mset:
  assumes wf: "kb_wf st" and c: "i \<in> set (column_card_ids st c)"
  shows "find_container st i = Some c \<and> mset (all_card_ids (delete_card i st)) + {#i#} = mset (all_card_ids st)"
proof -
  have fc: "find_container st i = Some c" by (rule find_container_wf [OF wf c])
  let ?F = "mset (filter (\<lambda>x. x \<noteq> i) (column_card_ids st c))"
  have e1: "mset (all_card_ids (delete_card i st)) + mset (column_card_ids st c) = mset (all_card_ids st) + ?F"
    using fc by (intro mset_all_card_ids_upd) (simp add: delete_card_def)
  have e2: "?F + {#i#} = mset (column_card_ids st c)"
    by (rule mset_filter_neq [OF kb_wf_distinct_col [OF wf] c])
  have "(mset (all_card_ids (delete_card i st)) + {#i#}) + ?F = mset (all_card_ids st) + ?F"
    using e1 e2 by (metis add.assoc add.commute)
  then show ?thesis using fc by (simp only: add_right_cancel)
qed

lemma delete_card_distinct:
  assumes wf: "kb_wf st" and c: "i \<in> set (column_card_ids st c)"
  shows "distinct (all_card_ids (delete_card i st) @ [i])"
proof -
  have "mset (all_card_ids (delete_card i st) @ [i]) = mset (all_card_ids st)"
    using delete_card_mset [OF wf c] by simp
  then show ?thesis using wf mset_eq_imp_distinct_iff by (simp only: kb_wf_def) blast
qed

lemma kb_wf_add_card:
  assumes wf: "kb_wf (kb_state u)" and fresh: "create_id ''c'' rnd \<notin> dom (cards_by_id (kb_state u))"
  shows "kb_wf (kb_state (add_card rnd col u))"
proof -
  let ?i = "create_id ''c'' rnd" and ?st = "kb_state u"
  let ?st' = "kb_state (add_card rnd col u)"
  have "mset (all_card_ids ?st') + mset (column_card_ids ?st col) = mset (all_card_ids ?st) + mset (column_card_ids ?st col @ [?i])"
    by (rule mset_all_card_ids_upd) (simp add: add_card_def Let_def)
  then have ms: "mset (all_card_ids ?st') = add_mset ?i (mset (all_card_ids ?st))" by simp
  then have set': "set (all_card_ids ?st') = insert ?i (set (all_card_ids ?st))"
    by (metis set_mset_add_mset_insert set_mset_mset)
  have ni: "?i \<notin> set (all_card_ids ?st)" using wf fresh by (simp add: kb_wf_def)
  have "distinct (all_card_ids ?st')"
    using ms ni wf by (metis distinct.simps(2) kb_wf_def mset.simps(2) mset_eq_imp_distinct_iff)
  then show ?thesis using wf set' ni by (auto simp: kb_wf_def add_card_def Let_def)
qed

lemma kb_wf_delete_card:
  assumes wf: "kb_wf st"
  shows "kb_wf (delete_card i st)"
proof (cases "find_container st i")
  case None
  then show ?thesis using wf by (simp add: delete_card_def)
next
  case (Some c)
  show ?thesis
  proof (cases "i \<in> set (column_card_ids st c)")
    case True
    let ?st' = "delete_card i st"
    have d: "distinct (all_card_ids ?st' @ [i])" by (rule delete_card_distinct [OF wf True])
    have "set (all_card_ids ?st') = set (all_card_ids st) - {i}"
      using d mset_eq_setD [of "all_card_ids ?st' @ [i]" "all_card_ids st"] delete_card_mset [OF wf True] by auto
    then show ?thesis using wf Some d by (auto simp: kb_wf_def delete_card_def)
  next
    case False
    then have "parse_column_id i = Some c" using find_container_SomeD [OF Some] by blast
    then have ni: "i \<notin> set (all_card_ids st)" by (rule kb_wf_card_not_column [OF wf])
    then have "filter (\<lambda>x. x \<noteq> i) (column_card_ids st c) = column_card_ids st c"
      by (auto intro: filter_True)
    moreover have "(cards_by_id st)(i := None) = cards_by_id st"
      using ni wf by (auto simp: kb_wf_def)
    ultimately have "delete_card i st = st" using Some by (simp add: delete_card_def)
    then show ?thesis using wf by simp
  qed
qed

lemma kb_wf_update_card_title:
  assumes wf: "kb_wf st" and i: "i \<in> set (all_card_ids st)"
  shows "kb_wf (update_card_title i t st)"
proof -
  obtain c where c: "cards_by_id st i = Some c" and ci: "card_id c = Some i"
    using wf i by (auto simp: kb_wf_def)
  have "all_card_ids (update_card_title i t st) = all_card_ids st"
    by (simp add: update_card_title_def all_card_ids_def)
  then show ?thesis using wf i c ci by (auto simp: kb_wf_def update_card_title_def)
qed

lemma kb_wf_step: "kb_wf (kb_state u) \<Longrightarrow> kb_env_ok u e \<Longrightarrow> kb_wf (kb_state (kb_step u e))"
proof (cases e)
  case (DragEnd a over)
  then show "kb_wf (kb_state u) \<Longrightarrow> kb_env_ok u e \<Longrightarrow> kb_wf (kb_state (kb_step u e))"
    using drag_end_update_mset kb_wf_perm
    by (cases over) (simp_all add: handle_drag_end_def)
qed (simp_all add: kb_wf_add_card kb_wf_delete_card kb_wf_update_card_title handle_drag_start_def)

lemma kb_init_wf: "kb_wf (kb_state (kb_init initial_kanban_state))"
  by (simp add: kb_init_def initial_kanban_state_def kb_wf_def all_card_ids_cols parse_column_id_def insert_commute)

lemma kb_wf_one_column:
  "kb_wf st \<Longrightarrow> i \<in> set (column_card_ids st c) \<Longrightarrow> i \<in> set (column_card_ids st d) \<Longrightarrow> c = d"
  by (cases c; cases d) (auto simp: kb_wf_def all_card_ids_cols)

section \<open>Properties\<close>

text \<open>Claim C13 (invariant). The board stays well formed: in every reachable state each card id is in exactly one column, \<open>cardsById\<close> holds exactly the cards of the columns under their own ids, and no card id is a column id.\<close>

lemma kanban_board_wf: "kb_reach u0 u \<Longrightarrow> kb_wf (kb_state u0) \<Longrightarrow> kb_wf (kb_state u)"
  by (induction rule: kb_reach.induct) (simp_all add: kb_wf_step)

lemma kanban_board_wf_witness:
  "kb_reach (kb_init initial_kanban_state) (kb_step (kb_init initial_kanban_state) (AddCard Done ''9'')) \<and>
   kb_wf (kb_state (kb_step (kb_init initial_kanban_state) (AddCard Done ''9'')))"
proof -
  have r: "kb_reach (kb_init initial_kanban_state) (kb_step (kb_init initial_kanban_state) (AddCard Done ''9''))"
    by (rule kb_reach_step [OF kb_reach_refl]) (simp add: kb_init_def initial_kanban_state_def create_id_def)
  show ?thesis using kanban_board_wf [OF r kb_init_wf] r by simp
qed

text \<open>Claim C14 (safety). A drag end keeps every card: the multiset of card ids over the columns and the cards map are unchanged, whatever the drag and drop ids.\<close>

lemma drag_end_conserves:
  assumes "kb_wf (kb_state u)"
  shows "mset (all_card_ids (kb_state (handle_drag_end a over u))) = mset (all_card_ids (kb_state u)) \<and>
         cards_by_id (kb_state (handle_drag_end a over u)) = cards_by_id (kb_state u)"
  using drag_end_update_mset [OF assms] by (cases over) (simp_all add: handle_drag_end_def)

lemma drag_end_conserves_witness:
  "kb_wf (kb_state (kb_init initial_kanban_state)) \<and>
   mset (all_card_ids (kb_state (handle_drag_end ''c-1'' (Some ''c-5'') (kb_init initial_kanban_state)))) =
   mset (all_card_ids initial_kanban_state)"
  using drag_end_conserves [OF kb_init_wf, of "''c-1''" "Some ''c-5''"] kb_init_wf by (simp add: kb_init_def)

text \<open>Claim C35 (functional). A drop on a card of another column moves the dragged card out of its column and right before the target card.\<close>

lemma drag_to_other_column_before_target:
  assumes wf: "kb_wf st" and a: "a \<in> set (column_card_ids st ac)" and b: "b \<in> set (column_card_ids st oc)"
    and ne: "ac \<noteq> oc"
  shows "a \<notin> set (column_card_ids (drag_end_update st a b) ac) \<and>
         column_card_ids (drag_end_update st a b) oc ! nat (js_index_of (column_card_ids st oc) b) = a \<and>
         column_card_ids (drag_end_update st a b) oc ! Suc (nat (js_index_of (column_card_ids st oc) b)) = b"
proof -
  have fa: "find_container st a = Some ac" and fb: "find_container st b = Some oc"
    using find_container_wf [OF wf] a b by auto
  have pb: "parse_column_id b = None" using wf b by (auto simp: kb_wf_def)
  let ?k = "nat (js_index_of (column_card_ids st oc) b)"
  have k: "?k < length (column_card_ids st oc)" and kb: "column_card_ids st oc ! ?k = b"
    using js_index_of_nth [OF b] by simp_all
  have ge: "0 \<le> js_index_of (column_card_ids st oc) b" using b
    by (simp add: js_index_of_in)
  have eq: "column_card_ids (drag_end_update st a b) oc = take ?k (column_card_ids st oc) @ a # drop ?k (column_card_ids st oc)"
   and eqa: "column_card_ids (drag_end_update st a b) ac = filter (\<lambda>x. x \<noteq> a) (column_card_ids st ac)"
    using fa fb ne a pb ge by (simp_all add: drag_end_update_def move_between_columns_def Let_def)
  show ?thesis using eq eqa k kb by (simp add: nth_append min_def)
qed

lemma drag_to_other_column_before_target_witness:
  "kb_wf initial_kanban_state \<and> column_card_ids (drag_end_update initial_kanban_state ''c-1'' ''c-5'') InProgress ! 1 = ''c-1''"
  using drag_to_other_column_before_target [of initial_kanban_state "''c-1''" Todo "''c-5''" InProgress] kb_init_wf
  by (simp add: kb_init_def initial_kanban_state_def)

text \<open>Claim C36 (functional). Reordering in a column: a drop on another card of the same column permutes the column so the dragged card ends at the target's old index, and no other column changes.\<close>

lemma reorder_takes_target_place:
  assumes wf: "kb_wf st" and a: "a \<in> set (column_card_ids st c)" and b: "b \<in> set (column_card_ids st c)"
    and ne: "a \<noteq> b"
  shows "mset (column_card_ids (drag_end_update st a b) c) = mset (column_card_ids st c) \<and>
         column_card_ids (drag_end_update st a b) c ! nat (js_index_of (column_card_ids st c) b) = a \<and>
         (\<forall>d. d \<noteq> c \<longrightarrow> column_card_ids (drag_end_update st a b) d = column_card_ids st d)"
proof -
  let ?xs = "column_card_ids st c"
  have fa: "find_container st a = Some c" and fb: "find_container st b = Some c"
    using find_container_wf [OF wf] a b by auto
  have pb: "parse_column_id b = None" using wf b by (auto simp: kb_wf_def)
  have ia: "nat (js_index_of ?xs a) < length ?xs" "?xs ! nat (js_index_of ?xs a) = a"
    using js_index_of_nth [OF a] by simp_all
  have ib: "nat (js_index_of ?xs b) < length ?xs" "?xs ! nat (js_index_of ?xs b) = b"
    using js_index_of_nth [OF b] by simp_all
  have ga: "0 \<le> js_index_of ?xs a" and gb: "0 \<le> js_index_of ?xs b"
    using a b by (simp_all add: js_index_of_in)
  have "js_index_of ?xs a \<noteq> js_index_of ?xs b" using ia(2) ib(2) ne ga gb by (metis)
  then have eq: "column_card_ids (drag_end_update st a b) = (column_card_ids st)
      (c := array_move ?xs (nat (js_index_of ?xs a)) (nat (js_index_of ?xs b)))"
    using fa fb pb a b by (simp add: drag_end_update_def Let_def)
  show ?thesis using eq ia ib by (simp add: array_move_mset array_move_nth)
qed

lemma reorder_takes_target_place_witness:
  "kb_wf initial_kanban_state \<and>
   column_card_ids (drag_end_update initial_kanban_state ''c-1'' ''c-3'') Todo = [''c-2'', ''c-3'', ''c-1'']"
  using reorder_takes_target_place [of initial_kanban_state "''c-1''" Todo "''c-3''"] kb_init_wf
  by (simp add: kb_init_def initial_kanban_state_def drag_end_update_def find_container_def
      parse_column_id_def all_columns_def array_move_def splice_in_def)

text \<open>Claim C37 (functional). Deleting a card removes exactly its id: every column is the old one with that id filtered out (one occurrence in all, the rest kept in order), the column list is unchanged, and the cards map is the old one with only that entry deleted.\<close>

lemma delete_card_removes:
  assumes wf: "kb_wf st" and i: "i \<in> set (all_card_ids st)"
  shows "cards_by_id (delete_card i st) = (cards_by_id st)(i := None) \<and>
         columns (delete_card i st) = columns st \<and>
         (\<forall>d. column_card_ids (delete_card i st) d = filter (\<lambda>x. x \<noteq> i) (column_card_ids st d)) \<and>
         i \<notin> set (all_card_ids (delete_card i st)) \<and>
         mset (all_card_ids (delete_card i st)) + {#i#} = mset (all_card_ids st)"
proof -
  obtain c where c: "i \<in> set (column_card_ids st c)"
    using i by (auto simp: all_card_ids_def all_columns_def)
  note dm = delete_card_mset [OF wf c]
  have other: "filter (\<lambda>x. x \<noteq> i) (column_card_ids st d) = column_card_ids st d" if "d \<noteq> c" for d
    using kb_wf_one_column [OF wf c, of d] that by (auto simp: filter_id_conv)
  have cols: "column_card_ids (delete_card i st) d = filter (\<lambda>x. x \<noteq> i) (column_card_ids st d)" for d
    using dm other [of d] by (cases "d = c") (simp_all add: delete_card_def)
  have "i \<notin> set (all_card_ids (delete_card i st))" using delete_card_distinct [OF wf c] by simp
  moreover have "cards_by_id (delete_card i st) = (cards_by_id st)(i := None)" "columns (delete_card i st) = columns st"
    using dm by (simp_all add: delete_card_def)
  ultimately show ?thesis using dm cols by simp
qed

lemma delete_card_removes_witness:
  "kb_wf initial_kanban_state \<and> ''c-2'' \<in> set (all_card_ids initial_kanban_state) \<and>
   all_card_ids (delete_card ''c-2'' initial_kanban_state) = [''c-1'', ''c-3'', ''c-4'', ''c-5'', ''c-6'', ''c-7'', ''c-8'']"
  using delete_card_removes [of initial_kanban_state "''c-2''"] kb_init_wf
  by (simp add: kb_init_def initial_kanban_state_def all_card_ids_cols delete_card_def find_container_def
      parse_column_id_def all_columns_def)

text \<open>Claim C38 (functional). Adding a card puts a card titled \<open>New card\<close> with the fresh id at the end of the chosen column, marks it for auto-edit, and keeps the board well formed.\<close>

lemma add_card_appends:
  assumes wf: "kb_wf (kb_state u)" and fresh: "create_id ''c'' rnd \<notin> dom (cards_by_id (kb_state u))"
  shows "find_container (kb_state (add_card rnd col u)) (create_id ''c'' rnd) = Some col \<and>
         last (column_card_ids (kb_state (add_card rnd col u)) col) = create_id ''c'' rnd \<and>
         map_option card_title (cards_by_id (kb_state (add_card rnd col u)) (create_id ''c'' rnd)) = Some ''New card'' \<and>
         auto_edit_card_id (add_card rnd col u) = Some (create_id ''c'' rnd) \<and>
         kb_wf (kb_state (add_card rnd col u))"
proof -
  have wf': "kb_wf (kb_state (add_card rnd col u))" by (rule kb_wf_add_card [OF wf fresh])
  have "create_id ''c'' rnd \<in> set (column_card_ids (kb_state (add_card rnd col u)) col)"
    by (simp add: add_card_def Let_def)
  then have "find_container (kb_state (add_card rnd col u)) (create_id ''c'' rnd) = Some col"
    by (rule find_container_wf [OF wf'])
  then show ?thesis using wf' by (simp add: add_card_def Let_def)
qed

lemma add_card_appends_witness:
  "kb_wf (kb_state (kb_init initial_kanban_state)) \<and>
   create_id ''c'' ''9'' \<notin> dom (cards_by_id (kb_state (kb_init initial_kanban_state))) \<and>
   column_card_ids (kb_state (add_card ''9'' Done (kb_init initial_kanban_state))) Done = [''c-7'', ''c-8'', ''c-9'']"
  using add_card_appends [OF kb_init_wf, of "''9''" Done] kb_init_wf
  by (simp add: kb_init_def initial_kanban_state_def create_id_def add_card_def Let_def)

text \<open>Claim C39 (functional). Committing the title editor ends editing; the card's title becomes the trimmed draft, or, for a blank draft, stays and the draft is reset to it.\<close>

lemma card_commit_sets_title:
  assumes wf: "kb_wf st" and c: "cards_by_id st i = Some c"
  shows "map_option card_title (cards_by_id (apply_title_call (snd (card_commit c ui)) st) i) =
           Some (if trim (draft ui) = [] then card_title c else trim (draft ui)) \<and>
         \<not> is_editing (fst (card_commit c ui)) \<and>
         (trim (draft ui) = [] \<longrightarrow> draft (fst (card_commit c ui)) = card_title c)"
proof -
  have "card_id c = Some i" using wf c by (force simp: kb_wf_def)
  then show ?thesis using c
    by (auto simp: card_commit_def apply_title_call_def update_card_title_def Let_def)
qed

lemma card_commit_sets_title_witness:
  "kb_wf initial_kanban_state \<and>
   map_option card_title (cards_by_id (apply_title_call
      (snd (card_commit (the (cards_by_id initial_kanban_state ''c-2'')) \<lparr>is_editing = True, draft = '' Landing page ''\<rparr>))
      initial_kanban_state) ''c-2'') = Some ''Landing page''"
  using card_commit_sets_title [of initial_kanban_state "''c-2''" "the (cards_by_id initial_kanban_state ''c-2'')"
      "\<lparr>is_editing = True, draft = '' Landing page ''\<rparr>"] kb_init_wf
  by (simp add: kb_init_def initial_kanban_state_def trim_def js_space_def)

end
