(* ===== verification/Kanban_View.thy ===== *)
theory Kanban_View
  imports Kanban
begin

text \<open>
  Rendering of the Kanban board as a pure function of its state: the board
  (\<open>KanbanBoard.tsx\<close> lines 53--56 and 170--213), each column (\<open>Column.tsx\<close>) and
  each card (\<open>Card.tsx\<close> lines 63--115).  A card slot holds what
  \<open>cardsById[cardId]\<close> gives, \<open>None\<close> for \<open>undefined\<close>, which \<open>Card\<close> would
  dereference (\<open>card.title\<close>, \<open>card.id\<close>).
\<close>

section \<open>The rendered board\<close>

text \<open>A card as shown (\<open>Card.tsx\<close> lines 64--113): the editor's textarea with the
  draft, or the title.\<close>

datatype card_dom = CardTextarea string | CardTitle string

definition card_view :: "kanban_card \<Rightarrow> card_ui \<Rightarrow> card_dom" where
  "card_view c ui = (if is_editing ui then CardTextarea (draft ui) else CardTitle (card_title c))"

text \<open>A column as rendered by \<open>Column.tsx\<close>: its title, the badge
  \<open>cardIds.length\<close> (line 39), and either the empty hint (line 50) or one card slot
  per id with the \<open>autoEdit\<close> flag (lines 52--60).\<close>

record column_dom =
  cd_title :: string
  cd_badge :: nat
  cd_empty_hint :: bool
  cd_cards :: "(kanban_card option \<times> bool) list"

definition column_view :: "kanban_column \<Rightarrow> string list \<Rightarrow> (string \<rightharpoonup> kanban_card) \<Rightarrow> string option \<Rightarrow> column_dom" where
  "column_view col card_ids cards auto_edit =
     \<lparr>cd_title = col_title col, cd_badge = length card_ids, cd_empty_hint = (length card_ids = 0),
      cd_cards = (if length card_ids = 0 then [] else map (\<lambda>i. (cards i, auto_edit = Some i)) card_ids)\<rparr>"

text \<open>The board (lines 187--202): one column per entry of \<open>state.columns\<close>, with
  \<open>state.columnCardIds[col.id]\<close>.\<close>

definition board_view :: "kb_ui \<Rightarrow> column_dom list" where
  "board_view u =
     map (\<lambda>col. column_view col (column_card_ids (kb_state u) (col_id col)) (cards_by_id (kb_state u)) (auto_edit_card_id u))
       (columns (kb_state u))"

text \<open>\<open>activeCardTitle\<close> (lines 53--56), shown in the drag overlay (lines 204--210).\<close>

definition active_card_title :: "kb_ui \<Rightarrow> string option" where
  "active_card_title u =
     (case active_card_id u of
        None \<Rightarrow> None
      | Some a \<Rightarrow> if a = [] then None else map_option card_title (cards_by_id (kb_state u) a))"

text \<open>The drag overlay (lines 204--210): the active card's title, when that is
  non-empty.\<close>

definition drag_overlay :: "kb_ui \<Rightarrow> string option" where
  "drag_overlay u = (case active_card_title u of Some t \<Rightarrow> if t = [] then None else Some t | None \<Rightarrow> None)"

text \<open>The card slots of the whole board, in order.\<close>

definition board_slots :: "kb_ui \<Rightarrow> kanban_card option list" where
  "board_slots u = concat (map (map fst \<circ> cd_cards) (board_view u))"

text \<open>What the user does on a card (\<open>Card.tsx\<close> lines 67--111): double-click the
  title (shown only when not editing), type in, press a key in, or leave the
  textarea (shown only when editing), or click Delete.  \<open>card_handle\<close> gives the
  card's new editor state and the board events its callbacks raise; a card without
  an id reaches the board as the key \<open>"undefined"\<close>.\<close>

datatype card_action = CardDoubleClick | CardInput string | CardKey string bool | CardBlur | CardDeleteClick

definition card_key :: "string option \<Rightarrow> string" where
  "card_key cid = (case cid of Some i \<Rightarrow> i | None \<Rightarrow> ''undefined'')"

definition card_commit_events :: "kanban_card \<Rightarrow> card_ui \<Rightarrow> card_ui \<times> kb_event list" where
  "card_commit_events c ui =
     (case card_commit c ui of (ui', call) \<Rightarrow>
        (ui', case call of None \<Rightarrow> [] | Some (cid, t) \<Rightarrow> [UpdateCardTitle (card_key cid) t]))"

fun card_handle :: "kanban_card \<Rightarrow> card_ui \<Rightarrow> card_action \<Rightarrow> card_ui \<times> kb_event list" where
  "card_handle c ui CardDoubleClick = (if is_editing ui then (ui, []) else (card_start_edit ui, []))"
| "card_handle c ui (CardInput v) = (if is_editing ui then (card_change_draft v ui, []) else (ui, []))"
| "card_handle c ui (CardKey k shift) =
     (if \<not> is_editing ui then (ui, [])
      else if k = ''Enter'' \<and> \<not> shift then card_commit_events c ui
      else if k = ''Escape'' then (card_cancel c ui, [])
      else (ui, []))"
| "card_handle c ui CardBlur = (if is_editing ui then card_commit_events c ui else (ui, []))"
| "card_handle c ui CardDeleteClick = (ui, [DeleteCard (card_key (card_id c))])"

text \<open>The column's \<open>+ Add Card\<close> button (\<open>Column.tsx\<close> line 42), with the random
  part of the id \<open>createId\<close> will draw.\<close>

definition column_add_click :: "kanban_column \<Rightarrow> string \<Rightarrow> kb_event list" where
  "column_add_click col rnd = [AddCard (col_id col) rnd]"

section \<open>Lemmas\<close>

lemma column_view_cards: "map fst (cd_cards (column_view col ids cards a)) = map cards ids"
  by (simp add: column_view_def)

lemma card_commit_events_board:
  "fold (\<lambda>e u. kb_step u e) (snd (card_commit_events c ui)) u =
     u\<lparr>kb_state := apply_title_call (snd (card_commit c ui)) (kb_state u)\<rparr>"
  by (simp add: card_commit_events_def card_key_def apply_title_call_def split: prod.split option.split)

section \<open>Properties\<close>

text \<open>Claim C40 (type). The board never renders an undefined card: when the board is well formed and its columns are the three of \<open>initialState\<close>, each rendered card slot holds the card \<open>cardsById\<close> gives, none is \<open>undefined\<close>, no card appears twice, and every card appears.\<close>

lemma board_renders_defined_cards:
  assumes wf: "kb_wf (kb_state u)" and cols: "map col_id (columns (kb_state u)) = all_columns"
  shows "board_slots u = map (cards_by_id (kb_state u)) (all_card_ids (kb_state u)) \<and>
         None \<notin> set (board_slots u) \<and>
         distinct (board_slots u) \<and> length (board_slots u) = card (dom (cards_by_id (kb_state u)))"
proof -
  let ?st = "kb_state u"
  have bs: "board_slots u = map (cards_by_id ?st) (all_card_ids ?st)"
  proof -
    have "board_slots u = concat (map (\<lambda>col. map (cards_by_id ?st) (column_card_ids ?st (col_id col))) (columns ?st))"
      by (simp add: board_slots_def board_view_def comp_def column_view_cards)
    also have "\<dots> = concat (map (\<lambda>c. map (cards_by_id ?st) (column_card_ids ?st c)) (map col_id (columns ?st)))"
      by (simp add: comp_def)
    finally show ?thesis using cols by (simp add: all_card_ids_def map_concat comp_def)
  qed
  have ids: "\<forall>i \<in> set (all_card_ids ?st). \<exists>c. cards_by_id ?st i = Some c \<and> card_id c = Some i"
    using wf by (auto simp: kb_wf_def)
  have d: "distinct (all_card_ids ?st)" using wf by (simp add: kb_wf_def)
  have inj: "inj_on (cards_by_id ?st) (set (all_card_ids ?st))"
    using ids by (auto simp: inj_on_def) (metis option.inject)
  have "distinct (board_slots u)" using bs d inj by (simp add: distinct_map)
  moreover have "None \<notin> set (board_slots u)" using bs ids by auto
  moreover have "length (board_slots u) = card (dom (cards_by_id ?st))"
    using bs d wf by (simp add: kb_wf_def distinct_card [symmetric])
  ultimately show ?thesis using bs by simp
qed

lemma board_renders_defined_cards_witness:
  "kb_wf (kb_state (kb_init initial_kanban_state)) \<and>
   map col_id (columns (kb_state (kb_init initial_kanban_state))) = all_columns \<and>
   length (board_slots (kb_init initial_kanban_state)) = 8"
proof -
  have c: "map col_id (columns (kb_state (kb_init initial_kanban_state))) = all_columns"
    by (simp add: kb_init_def initial_kanban_state_def all_columns_def)
  show ?thesis using board_renders_defined_cards [OF kb_init_wf c] kb_init_wf c
    by (simp add: kb_init_def initial_kanban_state_def all_card_ids_cols)
qed

end
