(* ===== verification/Spec2Isabelle.thy ===== *)
theory Spec2Isabelle
  imports Tree_Loader Tree_Render Kanban_View
begin

text \<open>
  \<^bold>\<open>A verification library for the tree view and Kanban components of
  ezworks-assignment.\<close>

  \<^bold>\<open>The program.\<close>  The repository holds two React components.  The tree view
  (\<open>src/TreeViewComponent\<close>) has a pure forest library
  (\<open>components/TreeView/treeUtils.ts\<close>, data types in \<open>types.ts\<close>), a
  controller component (\<open>TreeView.tsx\<close>) that owns the UI state (expanded and
  loading ids, rename and add drafts, drag state), calls the library for every
  structural edit, lazily loads children through an asynchronous loader and publishes
  the new forest to its owner, a row component (\<open>TreeNodeRow.tsx\<close>), the mock
  backend (\<open>mock/treeApi.ts\<close>) and the application (\<open>App.tsx\<close>), which owns the
  forest in controlled mode.  The Kanban board (\<open>src/KanbanBoard\<close>) is a flat
  analogue: cards in three columns (\<open>KanbanBoard.tsx\<close>, \<open>Column.tsx\<close>,
  \<open>Card.tsx\<close>), moved by dnd-kit drag and drop.

  \<^bold>\<open>Theories and what they model.\<close>
  \<^item> \<open>Tree_Prelude\<close>: the JavaScript built-ins the code relies on (\<open>trim\<close>,
    \<open>toUpperCase\<close>, \<open>join\<close>, \<open>indexOf\<close>, the clamp \<open>Math.max(0, Math.min(i, n))\<close>
    as \<open>clamp_index\<close>, \<open>splice(k, 0, x)\<close> as \<open>splice_in\<close>, truthiness of an id)
    and the list and multiset lemmas shared by the components (collection
    \<open>js_simps\<close>).
  \<^item> \<open>Tree_Types\<close>: \<open>types.ts\<close>.  \<open>TreeNode\<close> is the datatype \<open>node\<close> with
    \<open>children :: node list option\<close> (\<open>None\<close> is \<open>undefined\<close>, distinct from
    \<open>Some []\<close>) and \<open>lazy :: bool option\<close>.  The abstraction every property uses:
    the preorder \<open>forest_nodes\<close>, the ids \<open>forest_ids\<close>, and the predicates
    \<open>ids_ok\<close> (ids unique and non-empty) and \<open>lazy_ok\<close> (a lazy node has no
    children yet).
  \<^item> \<open>Tree_Utils\<close>: one definition per function of \<open>treeUtils.ts\<close>, in the file's
    order.  \<open>removeNode\<close>'s \<open>for\<close> loop is \<open>remove_loop\<close> with its three
    accumulators and \<open>findParentInfo\<close>'s indexed loop is \<open>find_parent_loop\<close>;
    both are mutually recursive with their callers, with a termination proof by a size
    measure, so every operation is total and executable.  \<open>createId\<close> is a
    function of its random inputs, and \<open>update_node_st\<close> is \<open>updateNode\<close> with
    the JavaScript call stack made explicit.
  \<^item> \<open>Tree_View\<close>: \<open>TreeView.tsx\<close> as the record \<open>tv_state\<close> (one field per
    \<open>useState\<close> hook, plus \<open>pending_loads\<close>, the loader calls still awaiting
    completion) and one definition per handler.  \<open>toggleExpand\<close> is split at its
    \<open>await\<close> into \<open>toggle_expand\<close> and the completions \<open>load_resolved\<close> and
    \<open>load_failed\<close>; the event datatype \<open>tv_event\<close>, the step function
    \<open>tv_step\<close>, runs \<open>tv_run\<close>, and the inductive \<open>tv_reach\<close> over events that
    satisfy \<open>env_ok\<close> (fresh \<open>createId\<close> results, well-formed loader results)
    model every interleaving of user events and load completions.  Controlled and
    uncontrolled ownership are both modelled (\<open>tv_value\<close>, \<open>app_on_change\<close>).
  \<^item> \<open>Tree_Loader\<close>: \<open>treeApi.ts\<close> (\<open>makeChildren\<close>, \<open>mockLoadChildren\<close>,
    \<open>createMockTree\<close>) and \<open>App\<close>'s initial state \<open>app_init\<close>, with the successive
    \<open>createId()\<close> results as an input function \<open>ids\<close>.
  \<^item> \<open>Tree_Render\<close>: \<open>renderList\<close> as the mutually recursive
    \<open>render_list\<close>/\<open>render_rows\<close>/\<open>render_row\<close> producing an abstract document,
    \<open>TreeNodeRow\<close> as \<open>row_view\<close>, the component's toolbar, root input and canvas
    as \<open>tv_view\<close>, and the controller events each DOM interaction raises
    (\<open>row_events\<close>, \<open>add_input_events\<close>, \<open>list_events\<close>,
    \<open>toolbar_events\<close>).
  \<^item> \<open>Kanban\<close>: the board state (\<open>cardsById\<close> a map, \<open>columnCardIds\<close> a
    function on \<open>column_id\<close>), every handler of \<open>KanbanBoard.tsx\<close>, the event type
    \<open>kb_event\<close> with \<open>kb_step\<close> and \<open>kb_reach\<close>, and the card's title editor.
  \<^item> \<open>Kanban_View\<close>: \<open>Column.tsx\<close>, \<open>Card.tsx\<close>'s markup and event handling
    (\<open>card_handle\<close>), and the board's columns and drag overlay.

  \<^bold>\<open>What is proved.\<close>  Tree model: \<open>moveNode\<close> refuses every destination inside
  the dragged subtree, conserves the ids, keeps ids unique and the lazy invariant, and
  moves the subtree unchanged; \<open>removeNode\<close>'s loop equals a reference definition,
  detaches exactly the subtree \<open>findNode\<close> returns, and removing then reinserting at
  the \<open>findParentInfo\<close> position restores the forest (a round trip); absent ids are
  no-ops; \<open>insertNodeAt\<close> clamps its index; \<open>updateNode\<close> returns within a
  call stack as deep as the forest and exhausts a shallower one on a full traversal
  (termination).  Controller: an invariant
  \<open>tv_inv\<close> (unique ids, lazy invariant, every loading node has a pending call)
  holds in every reachable state, by rule induction over \<open>tv_reach\<close> with one
  preservation lemma per handler; the functional behaviour of the expand, load, rename,
  add-child, add-root and remove handlers and of the drop-position computation (the
  drag handlers are covered by the invariants only); the two
  ownership modes agree (a refinement); completing the pending loader calls, in any
  outcome, clears every spinner (liveness).  Application: from \<open>createMockTree\<close>
  every reachable state is well formed, and the mock loader meets the loader contract.
  Rendering: the rows are exactly the visible nodes in preorder, their React keys are
  distinct and at most one editor of each kind is shown, and an expander click on an
  unloaded lazy node leads to the loading indicator; adding a root through the toolbar
  appends it or, for a blank name, keeps the input open.  Kanban: every card stays in
  exactly one column in every reachable state, drag end conserves cards, the
  effect of the add, delete, drag-end and title-commit handlers, and the board renders no undefined card.  Four defects are
  proved as theorems about the code (a lost subtree in \<open>moveNode\<close>, a repeated
  lazy load and a child lost to overlapping loads, both for every collapsed lazy
  node with unset children, and a loading flag kept after remove),
  and further divergences are recorded as lemmas beside the definitions.

  \<^bold>\<open>Bounds and fuel.\<close>  The model's own functions need none: every recursion is
  structural or has a termination proof, and the asynchronous loads are events, so a
  load that never completes is a run without its completion event; liveness is stated
  over runs that complete every pending call.  The one bound is the JavaScript engine's:
  the recursive \<open>treeUtils\<close> routines nest one call per level, and
  \<open>update_node_st d\<close> allows \<open>d\<close> nested calls, \<open>None\<close> being the
  \<open>RangeError\<close>.  A budget of the forest's depth minus one is enough, and it is
  also necessary for a traversal of the whole forest.

  \<^bold>\<open>Not modelled.\<close>  The randomness of \<open>createId\<close> and of the loader delay
  (their results are inputs), pointer geometry beyond the drop-position thirds,
  dnd-kit's sensors, collision detection and sortable transforms (their result is the
  pair of ids given to \<open>DragEnd\<close>; \<open>KanbanBoard.tsx\<close> lines 47--52 and
  \<open>Card.tsx\<close> lines 18--35), CSS and inline styles, DOM focus effects
  (\<open>Card.tsx\<close> lines 37--41, \<open>autoFocus\<close>), the static header markup, and the
  Vite configuration (\<open>vite.config.ts\<close>: build settings, no program behaviour).
  Strings are lists of 8-bit characters read as Latin-1: JavaScript's UTF-16 strings
  beyond \<open>U+00FF\<close> are not represented, and \<open>trim\<close> and \<open>toUpperCase\<close> are
  exact on the Latin-1 range except for the two letters whose capitals lie outside it.
  The source's object identity (returning the same array when nothing changed) shows
  only as value equality.
\<close>

end
